theory Spec2Isabelle
  imports Main "HOL-Library.Word"
begin

text \<open>
  A model of the PASETO authentication module for Caddy: the helpers of \<open>util.go\<close>
  (masking and normalising a token, reading tokens from a request, resolving the user
  and the metadata from the claims, parsing a meta claim) and \<open>Authenticate\<close> of
  \<open>module.go\<close>. The token library and the formatters of the standard library are
  parameters; everything else is a function that computes.
\<close>

section \<open>Go strings\<close>

text \<open>
  A Go string is a sequence of bytes; \<open>len\<close> counts bytes and \<open>s[i:j]\<close> slices bytes.
  An Isabelle \<open>string\<close> is a list of 8-bit characters, so \<open>length\<close>, \<open>take\<close> and
  \<open>drop\<close> are \<open>len\<close>, \<open>s[:n]\<close> and \<open>s[n:]\<close>.
\<close>

text \<open>
  \<open>strings.ToLower\<close>: on ASCII letters it adds \<open>'a' - 'A'\<close>. Bytes of non-ASCII runes are
  kept here as they are; the only use in the program is a prefix test against the ASCII
  text \<open>bearer \<close>, and no non-ASCII rune has \<open>b\<close>, \<open>e\<close>, \<open>a\<close>, \<open>r\<close> or a blank as its lower case.
\<close>

definition lowerByte :: "char \<Rightarrow> char" where
  "lowerByte c =
     (let n = (of_char c :: nat) in if 65 \<le> n \<and> n \<le> 90 then char_of (n + 32) else c)"

definition ToLower :: "string \<Rightarrow> string" where
  "ToLower s = map lowerByte s"

text \<open>\<open>strings.HasPrefix\<close> and \<open>strings.HasSuffix\<close>.\<close>

definition HasPrefix :: "string \<Rightarrow> string \<Rightarrow> bool" where
  "HasPrefix s p = (length p \<le> length s \<and> take (length p) s = p)"

definition HasSuffix :: "string \<Rightarrow> string \<Rightarrow> bool" where
  "HasSuffix s p = (length p \<le> length s \<and> drop (length s - length p) s = p)"

text \<open>
  \<open>strings.TrimSpace\<close> removes leading and trailing runes for which \<open>unicode.IsSpace\<close>
  holds. On bytes these are the UTF-8 encodings below: the six ASCII blanks, U+0085,
  U+00A0, U+1680, U+2000 to U+200A, U+2028, U+2029, U+202F, U+205F and U+3000.
\<close>

definition spaceRunes :: "string list" where
  "spaceRunes =
     [[CHR 0x09], [CHR 0x0A], [CHR 0x0B], [CHR 0x0C], [CHR 0x0D], [CHR 0x20],
      [CHR 0xC2, CHR 0x85], [CHR 0xC2, CHR 0xA0],
      [CHR 0xE1, CHR 0x9A, CHR 0x80],
      [CHR 0xE2, CHR 0x80, CHR 0x80], [CHR 0xE2, CHR 0x80, CHR 0x81],
      [CHR 0xE2, CHR 0x80, CHR 0x82], [CHR 0xE2, CHR 0x80, CHR 0x83],
      [CHR 0xE2, CHR 0x80, CHR 0x84], [CHR 0xE2, CHR 0x80, CHR 0x85],
      [CHR 0xE2, CHR 0x80, CHR 0x86], [CHR 0xE2, CHR 0x80, CHR 0x87],
      [CHR 0xE2, CHR 0x80, CHR 0x88], [CHR 0xE2, CHR 0x80, CHR 0x89],
      [CHR 0xE2, CHR 0x80, CHR 0x8A],
      [CHR 0xE2, CHR 0x80, CHR 0xA8], [CHR 0xE2, CHR 0x80, CHR 0xA9],
      [CHR 0xE2, CHR 0x80, CHR 0xAF], [CHR 0xE2, CHR 0x81, CHR 0x9F],
      [CHR 0xE3, CHR 0x80, CHR 0x80]]"

definition leadingSpace :: "string \<Rightarrow> nat" where
  "leadingSpace s = (case find (HasPrefix s) spaceRunes of None \<Rightarrow> 0 | Some p \<Rightarrow> length p)"

definition trailingSpace :: "string \<Rightarrow> nat" where
  "trailingSpace s = (case find (HasSuffix s) spaceRunes of None \<Rightarrow> 0 | Some p \<Rightarrow> length p)"

function TrimLeft :: "string \<Rightarrow> string" where
  "TrimLeft s = (if leadingSpace s = 0 then s else TrimLeft (drop (leadingSpace s) s))"
  by pat_completeness auto
termination
proof (relation "measure length")
  show "wf (measure length)" by simp
next
  fix s :: string
  assume pos: "leadingSpace s \<noteq> 0"
  have "leadingSpace [] = 0"
    by (simp add: leadingSpace_def spaceRunes_def HasPrefix_def)
  with pos have "s \<noteq> []" by auto
  with pos show "(drop (leadingSpace s) s, s) \<in> measure length" by simp
qed

function TrimRight :: "string \<Rightarrow> string" where
  "TrimRight s =
     (if trailingSpace s = 0 then s else TrimRight (take (length s - trailingSpace s) s))"
  by pat_completeness auto
termination
proof (relation "measure length")
  show "wf (measure length)" by simp
next
  fix s :: string
  assume pos: "trailingSpace s \<noteq> 0"
  have "trailingSpace [] = 0"
    by (simp add: trailingSpace_def spaceRunes_def HasSuffix_def)
  with pos have "s \<noteq> []" by auto
  with pos show "(take (length s - trailingSpace s) s, s) \<in> measure length" by simp
qed

definition TrimSpace :: "string \<Rightarrow> string" where
  "TrimSpace s = TrimRight (TrimLeft s)"

text \<open>
  \<open>strings.Index\<close> (\<open>None\<close> for \<open>-1\<close>), \<open>strings.Contains\<close>, \<open>strings.Split\<close> and
  \<open>strings.Join\<close>. The program splits at \<open>->\<close> and at a dot only; for the empty
  separator, which Go splits after each UTF-8 sequence, the clause here splits after
  each byte.
\<close>

fun Index :: "string \<Rightarrow> string \<Rightarrow> nat option" where
  "Index s sep =
     (if HasPrefix s sep then Some 0
      else (case s of [] \<Rightarrow> None | c # cs \<Rightarrow> map_option Suc (Index cs sep)))"

definition Contains :: "string \<Rightarrow> string \<Rightarrow> bool" where
  "Contains s substr = (Index s substr \<noteq> None)"

function Split :: "string \<Rightarrow> string \<Rightarrow> string list" where
  "Split s sep =
     (if sep = [] then map (\<lambda>c. [c]) s
      else (case Index s sep of
              None \<Rightarrow> [s]
            | Some m \<Rightarrow> take m s # Split (drop (m + length sep) s) sep))"
  by pat_completeness auto
termination
proof (relation "measure (\<lambda>(s, sep). length s)")
  show "wf (measure (\<lambda>(s, sep). length s))" by simp
next
  fix s sep :: string and m :: nat
  assume sep: "sep \<noteq> []" and idx: "Index s sep = Some m"
  have "s \<noteq> []"
  proof
    assume "s = []"
    with sep have "Index s sep = None" by (simp add: HasPrefix_def)
    with idx show False by simp
  qed
  with sep show "((drop (m + length sep) s, sep), (s, sep)) \<in> measure (\<lambda>(s, sep). length s)"
    by simp
qed

fun Join :: "string list \<Rightarrow> string \<Rightarrow> string" where
  "Join [] sep = []"
| "Join [x] sep = x"
| "Join (x # y # ys) sep = x @ sep @ Join (y # ys) sep"

section \<open>util.go\<close>

subsection \<open>maskToken and normToken\<close>

definition maskToken :: "string \<Rightarrow> string" where
  "maskToken token =
     (if length token \<le> 6 then token
      else (let mask = min (length token div 3) 16
            in take mask token @ ''...'' @ drop (length token - mask) token))"

definition normToken :: "string \<Rightarrow> string" where
  "normToken token =
     TrimSpace (if HasPrefix (ToLower token) ''bearer ''
                then drop (length ''bearer '') token else token)"

subsection \<open>Token sources of a request\<close>

text \<open>
  The program reads a request through three accessors of \<open>net/http\<close>:
  \<open>r.Header.Get(key)\<close> and \<open>r.URL.Query().Get(key)\<close> return the first value stored under
  the key, or the empty string; \<open>r.Cookie(key)\<close> returns the first cookie of that name or
  the error \<open>ErrNoCookie\<close> (\<open>None\<close>), and the program reads the cookie's \<open>Value\<close>.
\<close>

record request =
  Header_Get :: "string \<Rightarrow> string"
  Query_Get :: "string \<Rightarrow> string"
  Cookie :: "string \<Rightarrow> string option"

text \<open>Each loop appends to \<open>tokens\<close>, which starts empty.\<close>

definition getTokensFromHeader :: "request \<Rightarrow> string list \<Rightarrow> string list" where
  "getTokensFromHeader r names =
     fold (\<lambda>key tokens. let token = Header_Get r key
                         in if token \<noteq> [] then tokens @ [token] else tokens) names []"

definition getTokensFromQuery :: "request \<Rightarrow> string list \<Rightarrow> string list" where
  "getTokensFromQuery r names =
     fold (\<lambda>key tokens. let token = Query_Get r key
                         in if token \<noteq> [] then tokens @ [token] else tokens) names []"

definition getTokensFromCookies :: "request \<Rightarrow> string list \<Rightarrow> string list" where
  "getTokensFromCookies r names =
     fold (\<lambda>key tokens. case Cookie r key of
                           Some v \<Rightarrow> if v \<noteq> [] then tokens @ [v] else tokens
                         | None \<Rightarrow> tokens) names []"

subsection \<open>Claims\<close>

text \<open>
  A claim value is a Go \<open>any\<close>. The constructors are the dynamic types the program
  distinguishes: \<open>nil\<close>, \<open>string\<close>, \<open>bool\<close>, \<open>json.Number\<close> (a string type), \<open>float64\<close>
  (its 64 bits), \<open>time.Time\<close> (the instant, in nanoseconds), some other type with a
  \<open>String\<close> method (carrying what the method returns), \<open>[]any\<close>, \<open>map[string]any\<close>, and
  any other type. A \<open>map[string]any\<close> is an association list read with \<open>map_of\<close>.
\<close>

datatype claim_value =
    VNil
  | VString string
  | VBool bool
  | VNumber string
  | VFloat64 "64 word"
  | VTime int
  | VStringer string
  | VSlice "claim_value list"
  | VMap "(string \<times> claim_value) list"
  | VOther

type_synonym claims = "(string \<times> claim_value) list"

text \<open>
  The number and time formatters of the standard library are parameters:
  \<open>FormatFloat v\<close> is \<open>strconv.FormatFloat(v, 'f', -1, 64)\<close> and \<open>FormatTime t\<close> is
  \<open>t.UTC().Format(time.RFC3339Nano)\<close>.
\<close>

record formats =
  FormatFloat :: "64 word \<Rightarrow> string"
  FormatTime :: "int \<Rightarrow> string"

subsection \<open>getUserID\<close>

fun getUserID :: "formats \<Rightarrow> claims \<Rightarrow> string list \<Rightarrow> string \<times> string" where
  "getUserID fm claims [] = ('''', '''')"
| "getUserID fm claims (name # names) =
     (case map_of claims name of
        Some (VString val) \<Rightarrow> (name, val)
      | Some (VFloat64 val) \<Rightarrow> (name, FormatFloat fm val)
      | _ \<Rightarrow> getUserID fm claims names)"

subsection \<open>stringify\<close>

definition FormatBool :: "bool \<Rightarrow> string" where
  "FormatBool b = (if b then ''true'' else ''false'')"

text \<open>
  \<open>stringifySlice\<close> appends the string of each element to \<open>result\<close>, which starts empty,
  and joins the result with commas; \<open>stringifyEach\<close> is its loop.
\<close>

fun stringify :: "formats \<Rightarrow> claim_value \<Rightarrow> string"
  and stringifySlice :: "formats \<Rightarrow> claim_value list \<Rightarrow> string"
  and stringifyEach :: "formats \<Rightarrow> claim_value list \<Rightarrow> string list \<Rightarrow> string list" where
  "stringify fm VNil = ''''"
| "stringify fm (VString uv) = uv"
| "stringify fm (VBool uv) = FormatBool uv"
| "stringify fm (VNumber uv) = uv"
| "stringify fm (VFloat64 uv) = FormatFloat fm uv"
| "stringify fm (VTime uv) = FormatTime fm uv"
| "stringify fm (VStringer str) = str"
| "stringify fm (VSlice vals) = stringifySlice fm vals"
| "stringify fm (VMap m) = ''''"
| "stringify fm VOther = ''''"
| "stringifySlice fm vals = Join (stringifyEach fm vals []) '',''"
| "stringifyEach fm [] result = result"
| "stringifyEach fm (val # vals) result = stringifyEach fm vals (result @ [stringify fm val])"

subsection \<open>queryNested\<close>

text \<open>
  The loop runs over every index of \<open>path\<close> (\<open>for i := range len(path)\<close>) and replaces
  \<open>object\<close> by the nested mapping under \<open>path[i]\<close>; it returns \<open>(nil, false)\<close> when the value
  is absent or no mapping. \<open>walk\<close> is that loop, \<open>None\<close> being the early return.
  (The test \<open>object == nil\<close> is for a nil mapping stored as a value, which decoded
  claims do not have and \<open>VMap\<close> does not represent.)
  After the loop \<open>path[len(path)-1]\<close> panics on an empty path.
\<close>

datatype 'a outcome = Panics | Returns 'a

fun walk :: "claims \<Rightarrow> string list \<Rightarrow> claims option" where
  "walk object [] = Some object"
| "walk object (key # path) =
     (case map_of object key of
        Some (VMap m) \<Rightarrow> walk m path
      | _ \<Rightarrow> None)"

definition queryNested :: "claims \<Rightarrow> string list \<Rightarrow> (claim_value \<times> bool) outcome" where
  "queryNested claims path =
     (case walk claims path of
        None \<Rightarrow> Returns (VNil, False)
      | Some object \<Rightarrow>
          if path = [] then Panics
          else Returns (case map_of object (last path) of None \<Rightarrow> VNil | Some v \<Rightarrow> v, True))"

subsection \<open>getUserMetadata\<close>

text \<open>
  A parsed token gives its claims with \<open>ClaimsRaw\<close>. The configured
  \<open>map[string]string\<close> of meta claims is the list of its entries in the order the
  \<open>range\<close> loop visits them. The result is \<open>None\<close> for Go's nil map.
\<close>

record token =
  ClaimsRaw :: claims

type_synonym metadata = "string \<rightharpoonup> string"

definition lookupClaim :: "claims \<Rightarrow> string \<Rightarrow> (claim_value \<times> bool) outcome" where
  "lookupClaim claims claimName =
     (case map_of claims claimName of
        Some claimValue \<Rightarrow> Returns (claimValue, True)
      | None \<Rightarrow>
          if Contains claimName ''.'' then queryNested claims (Split claimName ''.'')
          else Returns (VNil, False))"

fun metadataLoop :: "formats \<Rightarrow> claims \<Rightarrow> (string \<times> string) list \<Rightarrow> metadata
    \<Rightarrow> metadata outcome" where
  "metadataLoop fm claims [] metadata = Returns metadata"
| "metadataLoop fm claims ((claimName, placeholder) # rest) metadata =
     (case lookupClaim claims claimName of
        Panics \<Rightarrow> Panics
      | Returns (claimValue, ok) \<Rightarrow>
          if \<not> ok then metadataLoop fm claims rest (metadata(placeholder \<mapsto> ''''))
          else metadataLoop fm claims rest (metadata(placeholder \<mapsto> stringify fm claimValue)))"

definition getUserMetadata :: "formats \<Rightarrow> token \<Rightarrow> (string \<times> string) list
    \<Rightarrow> metadata option outcome" where
  "getUserMetadata fm tok placeholdersMap =
     (if length placeholdersMap = 0 then Returns None
      else (case metadataLoop fm (ClaimsRaw tok) placeholdersMap Map.empty of
              Panics \<Rightarrow> Panics
            | Returns metadata \<Rightarrow> Returns (Some metadata)))"

subsection \<open>parseMetaClaim\<close>

text \<open>The three errors carry the key, which the message quotes.\<close>

datatype parse_error =
    TooManyDelimiters string
  | EmptyClaim string
  | EmptyPlaceholder string

definition parseMetaClaim :: "string \<Rightarrow> parse_error + string \<times> string" where
  "parseMetaClaim key =
     (let parts = Split key ''->'' in
      if length parts = 1 \<or> length parts = 2 then
        (let claim = TrimSpace (parts ! 0);
             placeholder = (if length parts = 1 then TrimSpace (parts ! 0)
                            else TrimSpace (parts ! 1))
         in if claim = [] then Inl (EmptyClaim key)
            else if placeholder = [] then Inl (EmptyPlaceholder key)
            else Inr (claim, placeholder))
      else Inl (TooManyDelimiters key))"

section \<open>module.go\<close>

subsection \<open>Configuration, collaborators and effects\<close>

text \<open>
  \<open>PasetoAuth\<close> is the module's configuration. \<open>TimeSkewTolerance\<close> is a \<open>time.Duration\<close>
  (nanoseconds); \<open>MetaClaims\<close> is the \<open>map[string]string\<close> as the list of its entries;
  \<open>key\<close> is the decoded key that \<open>Validate\<close> stores.
\<close>

record PasetoAuth =
  Key :: string
  Purpose :: string
  Version :: string
  TimeSkewTolerance :: int
  FromQuery :: "string list"
  FromHeader :: "string list"
  FromCookies :: "string list"
  UserClaims :: "string list"
  MetaClaims :: "(string \<times> string) list"
  AllowAudiences :: "string list"
  AllowIssuers :: "string list"
  AllowUsers :: "string list"
  key :: string

text \<open>
  The token library \<open>xpaseto\<close> is outside the repository. Its two operations are
  parameters: \<open>ParseToken k s\<close> is \<open>xpaseto.ParseToken(k, s)\<close>, the text of the error or the
  token; \<open>ValidateToken t d rules\<close> is \<open>t.Validate(time.Now, d, rules...)\<close>, the text of the
  error or \<open>None\<close> for nil. The clock is read inside the library; one invocation of
  \<open>Authenticate\<close> works with one such pair of operations.
\<close>

datatype rule = RuleAllowAudiences "string list" | RuleAllowIssuers "string list"

record xpaseto =
  ParseToken :: "string \<Rightarrow> string \<Rightarrow> string + token"
  ValidateToken :: "token \<Rightarrow> int \<Rightarrow> rule list \<Rightarrow> string option"

text \<open>
  What one invocation does besides returning: the calls of the two library operations
  and the log records, in program order. A log record has the \<open>token\<close> attribute (the
  masked token), the message and the further attributes.
\<close>

datatype event =
    CallParseToken string string
  | CallValidate token int "rule list"
  | LogWarn string string "(string \<times> string list) list"
  | LogInfo string string "(string \<times> string list) list"

record user =
  ID :: string
  Metadata :: "metadata option"

text \<open>The three results of \<open>Authenticate\<close>: the user, the flag and the error (\<open>None\<close> for nil).\<close>

type_synonym auth_result = "user \<times> bool \<times> string option"

subsection \<open>Authenticate\<close>

definition candidates :: "PasetoAuth \<Rightarrow> request \<Rightarrow> string list" where
  "candidates p r =
     getTokensFromQuery r (FromQuery p) @ getTokensFromHeader r (FromHeader p)
       @ getTokensFromCookies r (FromCookies p) @ getTokensFromHeader r [''Authorization'']"

definition extraValidRules :: "PasetoAuth \<Rightarrow> rule list" where
  "extraValidRules p =
     (if length (AllowAudiences p) > 0 then [RuleAllowAudiences (AllowAudiences p)] else [])
       @ (if length (AllowIssuers p) > 0 then [RuleAllowIssuers (AllowIssuers p)] else [])"

text \<open>
  The body of the loop for a token string that was not checked before: \<open>Continue\<close> is a
  \<open>continue\<close>, \<open>Return\<close> leaves the function. The events of the body come with it.
\<close>

datatype 'a step = Continue | Return 'a

definition tryToken :: "formats \<Rightarrow> xpaseto \<Rightarrow> PasetoAuth \<Rightarrow> string
    \<Rightarrow> auth_result outcome step \<times> event list" where
  "tryToken fm xp p tokenStr =
     (let masked = maskToken tokenStr;
          rules = extraValidRules p;
          parse = CallParseToken (key p) tokenStr
      in case ParseToken xp (key p) tokenStr of
           Inl err \<Rightarrow> (Continue, [parse, LogWarn masked err []])
         | Inr tok \<Rightarrow>
             (let validate = CallValidate tok (TimeSkewTolerance p) rules
              in case ValidateToken xp tok (TimeSkewTolerance p) rules of
                   Some err \<Rightarrow> (Continue, [parse, validate, LogWarn masked err []])
                 | None \<Rightarrow>
                     (let (claimName, userID) = getUserID fm (ClaimsRaw tok) (UserClaims p)
                      in if userID = [] then
                           (Continue, [parse, validate,
                              LogWarn masked ''user claim is empty''
                                [(''user_claims'', UserClaims p)]])
                         else if length (AllowUsers p) > 0 \<and> userID \<notin> set (AllowUsers p) then
                           (Continue, [parse, validate,
                              LogWarn masked ''user is not allowed'' [(''user_id'', [userID])]])
                         else
                           (case getUserMetadata fm tok (MetaClaims p) of
                              Panics \<Rightarrow> (Return Panics, [parse, validate])
                            | Returns md \<Rightarrow>
                                (Return (Returns (\<lparr>ID = userID, Metadata = md\<rparr>, True, None)),
                                 [parse, validate,
                                  LogInfo masked ''user authenticated''
                                    [(''user_claim'', [claimName]), (''user_id'', [userID])]])))))"

definition emit :: "event list \<Rightarrow> 'a \<times> event list \<Rightarrow> 'a \<times> event list" where
  "emit es res = (fst res, es @ snd res)"

fun authLoop :: "formats \<Rightarrow> xpaseto \<Rightarrow> PasetoAuth \<Rightarrow> string set \<Rightarrow> string list
    \<Rightarrow> auth_result outcome \<times> event list" where
  "authLoop fm xp p checked [] = (Returns (\<lparr>ID = [], Metadata = None\<rparr>, False, None), [])"
| "authLoop fm xp p checked (candidateToken # rest) =
     (let tokenStr = normToken candidateToken
      in if tokenStr \<in> checked then authLoop fm xp p checked rest
         else (case tryToken fm xp p tokenStr of
                 (Continue, es) \<Rightarrow> emit es (authLoop fm xp p (insert tokenStr checked) rest)
               | (Return res, es) \<Rightarrow> (res, es)))"

definition Authenticate :: "formats \<Rightarrow> xpaseto \<Rightarrow> PasetoAuth \<Rightarrow> request
    \<Rightarrow> auth_result outcome \<times> event list" where
  "Authenticate fm xp p r = authLoop fm xp p {} (candidates p r)"

section \<open>Notions used in the statements\<close>

text \<open>
  The token strings handed to \<open>ParseToken\<close> and the tokens handed to the validator, in
  call order.
\<close>

fun parsedTokens :: "event list \<Rightarrow> string list" where
  "parsedTokens [] = []"
| "parsedTokens (CallParseToken k s # es) = s # parsedTokens es"
| "parsedTokens (e # es) = parsedTokens es"

fun validatedTokens :: "event list \<Rightarrow> token list" where
  "validatedTokens [] = []"
| "validatedTokens (CallValidate tok d rules # es) = tok # validatedTokens es"
| "validatedTokens (e # es) = validatedTokens es"

text \<open>
  A token string passes when it parses, validates, resolves to an identity that is not
  empty, and the identity is allowed: the list of allowed users is empty or has it.
\<close>

definition passes :: "formats \<Rightarrow> xpaseto \<Rightarrow> PasetoAuth \<Rightarrow> string \<Rightarrow> bool" where
  "passes fm xp p s =
     (case ParseToken xp (key p) s of
        Inl err \<Rightarrow> False
      | Inr tok \<Rightarrow>
          ValidateToken xp tok (TimeSkewTolerance p) (extraValidRules p) = None
          \<and> snd (getUserID fm (ClaimsRaw tok) (UserClaims p)) \<noteq> []
          \<and> (AllowUsers p = []
              \<or> snd (getUserID fm (ClaimsRaw tok) (UserClaims p)) \<in> set (AllowUsers p)))"

text \<open>The first occurrences in a list of the strings that are not in \<open>seen\<close>.\<close>

fun unseen :: "string set \<Rightarrow> string list \<Rightarrow> string list" where
  "unseen seen [] = []"
| "unseen seen (x # xs) = (if x \<in> seen then unseen seen xs else x # unseen (insert x seen) xs)"

text \<open>The parsed token of a string, when there is one.\<close>

definition parsedOf :: "xpaseto \<Rightarrow> PasetoAuth \<Rightarrow> string \<Rightarrow> token option" where
  "parsedOf xp p s = (case ParseToken xp (key p) s of Inl err \<Rightarrow> None | Inr tok \<Rightarrow> Some tok)"

text \<open>The value of the cookie of a name, empty when there is no such cookie.\<close>

definition cookieValue :: "request \<Rightarrow> string \<Rightarrow> string" where
  "cookieValue r n = (case Cookie r n of None \<Rightarrow> [] | Some v \<Rightarrow> v)"

text \<open>
  Nested lookup as the specification words it: walk all but the last segment of the
  path through nested mappings, then read the last segment in the mapping reached.
\<close>

definition queryNested_spec :: "claims \<Rightarrow> string list \<Rightarrow> (claim_value \<times> bool) outcome" where
  "queryNested_spec claims path =
     (if path = [] then Panics
      else (case walk claims (butlast path) of
              None \<Rightarrow> Returns (VNil, False)
            | Some object \<Rightarrow>
                Returns (case map_of object (last path) of None \<Rightarrow> VNil | Some v \<Rightarrow> v, True)))"

text \<open>Whether a result is an error.\<close>

definition isError :: "'e + 'a \<Rightarrow> bool" where
  "isError x = (case x of Inl e \<Rightarrow> True | Inr v \<Rightarrow> False)"

subsection \<open>A configuration and two requests for the examples\<close>

text \<open>
  The parser of the examples knows two tokens: \<open>tokA\<close> of Alice and \<open>tokB\<close> of Bob, whose
  issuer is \<open>test\<close>; every other string is malformed. The validator accepts both.
  The configuration allows Bob only. The first request carries Alice's token in the
  query (behind a \<open>Bearer\<close> prefix) and in a header, a malformed cookie (behind the
  prefix too), and Bob's token in the \<open>Authorization\<close> header; the second carries
  Alice's token twice and nothing else.
\<close>

definition exFormats :: formats where
  "exFormats = \<lparr>FormatFloat = (\<lambda>v. ''0''), FormatTime = (\<lambda>t. ''1970-01-01T00:00:00Z'')\<rparr>"

definition exLibrary :: xpaseto where
  "exLibrary =
     \<lparr>ParseToken = (\<lambda>k s.
        if s = ''tokA'' then Inr \<lparr>ClaimsRaw = [(''sub'', VString ''Alice'')]\<rparr>
        else if s = ''tokB''
          then Inr \<lparr>ClaimsRaw = [(''sub'', VString ''Bob''), (''iss'', VString ''test'')]\<rparr>
        else Inl ''malformed token''),
      ValidateToken = (\<lambda>tok d rules. None)\<rparr>"

definition exConfig :: PasetoAuth where
  "exConfig =
     \<lparr>Key = ''00'', Purpose = ''public'', Version = ''v4'', TimeSkewTolerance = 30000000000,
      FromQuery = [''token''], FromHeader = [''X-Token''], FromCookies = [''auth''],
      UserClaims = [''sub''], MetaClaims = [(''iss'', ''issuer'')],
      AllowAudiences = [], AllowIssuers = [], AllowUsers = [''Bob''], key = ''00''\<rparr>"

definition exRequest :: request where
  "exRequest =
     \<lparr>Header_Get = (\<lambda>k. if k = ''X-Token'' then ''tokA''
                         else if k = ''Authorization'' then ''Bearer tokB'' else []),
      Query_Get = (\<lambda>k. if k = ''token'' then ''Bearer tokA '' else []),
      Cookie = (\<lambda>k. if k = ''auth'' then Some ''Bearer junk'' else None)\<rparr>"

definition exRequestAlice :: request where
  "exRequestAlice =
     \<lparr>Header_Get = (\<lambda>k. if k = ''X-Token'' then ''tokA'' else []),
      Query_Get = (\<lambda>k. if k = ''token'' then ''tokA'' else []),
      Cookie = (\<lambda>k. None)\<rparr>"

section \<open>Masking and normalisation\<close>

lemma ToLower_append: "ToLower (a @ b) = ToLower a @ ToLower b"
  by (simp add: ToLower_def)

lemma length_ToLower: "length (ToLower s) = length s"
  by (simp add: ToLower_def)

lemma HasPrefix_append: "HasPrefix (a @ b) a"
  by (simp add: HasPrefix_def)

lemma ToLower_Bearer: "ToLower ''Bearer '' = ''bearer ''"
  by code_simp




text \<open>
  C8. A prefix that is \<open>bearer \<close> up to the case of its letters is stripped and the rest is
  trimmed; a token without such a prefix is only trimmed. So \<open>Bearer \<close> followed by \<open>t\<close>
  and \<open>t\<close> alone give the same string, the trimmed \<open>t\<close>, for every \<open>t\<close> without the prefix.
\<close>

theorem normToken_bearer:
  "(ToLower b = ''bearer '' \<longrightarrow> normToken (b @ t) = TrimSpace t) \<and>
   (\<not> HasPrefix (ToLower t) ''bearer '' \<longrightarrow>
      normToken t = TrimSpace t \<and> normToken (''Bearer '' @ t) = normToken t)"
proof (intro conjI impI)
  assume b: "ToLower b = ''bearer ''"
  have len: "length b = 7"
    using length_ToLower [of b] b by simp
  have "HasPrefix (ToLower (b @ t)) ''bearer ''"
    using HasPrefix_append [of "ToLower b" "ToLower t"] b by (simp add: ToLower_append)
  then show "normToken (b @ t) = TrimSpace t"
    using len by (simp add: normToken_def)
next
  assume n: "\<not> HasPrefix (ToLower t) ''bearer ''"
  then show "normToken t = TrimSpace t"
    by (simp add: normToken_def)
  have "HasPrefix (ToLower (''Bearer '' @ t)) ''bearer ''"
    using HasPrefix_append [of "''bearer ''" "ToLower t"] ToLower_Bearer
    by (simp only: ToLower_append)
  then have "normToken (''Bearer '' @ t) = TrimSpace t"
    by (simp add: normToken_def)
  with n show "normToken (''Bearer '' @ t) = normToken t"
    by (simp add: normToken_def)
qed

theorem normToken_bearer_witness:
  "ToLower ''BeArEr '' = ''bearer '' \<and> \<not> HasPrefix (ToLower '' tok1 '') ''bearer ''
   \<and> normToken (''BeArEr '' @ '' tok1 '') = ''tok1''
   \<and> normToken '' tok1 '' = ''tok1''
   \<and> normToken (''Bearer '' @ '' tok1 '') = ''tok1''"
proof -
  have b: "ToLower ''BeArEr '' = ''bearer ''" by code_simp
  have n: "\<not> HasPrefix (ToLower '' tok1 '') ''bearer ''" by code_simp
  have t: "TrimSpace '' tok1 '' = ''tok1''" by code_simp
  from normToken_bearer [of "''BeArEr ''" "'' tok1 ''"] b n t show ?thesis by simp
qed

section \<open>Parsing a meta claim\<close>

lemma HasPrefix_iff: "HasPrefix s p \<longleftrightarrow> (\<exists>b. s = p @ b)"
proof
  assume "HasPrefix s p"
  then have "s = p @ drop (length p) s"
    by (metis HasPrefix_def append_take_drop_id)
  then show "\<exists>b. s = p @ b" ..
next
  assume "\<exists>b. s = p @ b"
  then show "HasPrefix s p" by (auto simp: HasPrefix_def)
qed

lemma Index_Nil: "sep \<noteq> [] \<Longrightarrow> Index [] sep = None"
  by (simp add: HasPrefix_def)

lemma Index_Cons:
  "Index (c # cs) sep = (if HasPrefix (c # cs) sep then Some 0 else map_option Suc (Index cs sep))"
  by simp

declare Index.simps [simp del]
declare Split.simps [simp del]

lemma Index_Some:
  "sep \<noteq> [] \<Longrightarrow> Index s sep = Some m \<Longrightarrow>
     s = take m s @ sep @ drop (m + length sep) s \<and> Index (take m s) sep = None"
proof (induction s arbitrary: m)
  case Nil
  then show ?case by (simp add: Index_Nil)
next
  case (Cons c cs)
  show ?case
  proof (cases "HasPrefix (c # cs) sep")
    case True
    with Cons.prems have m: "m = 0" by (simp add: Index_Cons)
    from True obtain b where b: "c # cs = sep @ b" by (auto simp: HasPrefix_iff)
    have "drop (length sep) (c # cs) = b" by (simp add: b)
    with m b Cons.prems(1) show ?thesis by (simp add: Index_Nil)
  next
    case False
    with Cons.prems obtain m' where m': "Index cs sep = Some m'" "m = Suc m'"
      by (auto simp: Index_Cons)
    from Cons.IH [OF Cons.prems(1) m'(1)]
    have eq: "cs = take m' cs @ sep @ drop (m' + length sep) cs"
      and none: "Index (take m' cs) sep = None" by simp_all
    have "\<not> HasPrefix (c # take m' cs) sep"
    proof
      assume "HasPrefix (c # take m' cs) sep"
      then obtain b where "c # take m' cs = sep @ b" by (auto simp: HasPrefix_iff)
      then have "c # cs = sep @ (b @ drop m' cs)"
        by (metis append_Cons append_assoc append_take_drop_id)
      with False show False by (auto simp: HasPrefix_iff)
    qed
    with none have "Index (take m (c # cs)) sep = None"
      by (simp add: m'(2) Index_Cons)
    moreover from eq have "c # cs = take m (c # cs) @ sep @ drop (m + length sep) (c # cs)"
      by (simp add: m'(2))
    ultimately show ?thesis by simp
  qed
qed

lemma Contains_iff: "sep \<noteq> [] \<Longrightarrow> Contains s sep \<longleftrightarrow> (\<exists>a b. s = a @ sep @ b)"
proof (induction s)
  case Nil
  then show ?case by (simp add: Contains_def Index_Nil)
next
  case (Cons c cs)
  show ?case
  proof (cases "HasPrefix (c # cs) sep")
    case True
    then obtain b where "c # cs = [] @ sep @ b" by (auto simp: HasPrefix_iff)
    then have "\<exists>a b. c # cs = a @ sep @ b" by blast
    with True show ?thesis by (simp add: Contains_def Index_Cons)
  next
    case False
    have "(\<exists>a b. c # cs = a @ sep @ b) \<longleftrightarrow> (\<exists>a b. cs = a @ sep @ b)"
    proof
      assume "\<exists>a b. c # cs = a @ sep @ b"
      then obtain a b where ab: "c # cs = a @ sep @ b" by blast
      with False have "a \<noteq> []" by (auto simp: HasPrefix_iff)
      then obtain a' where "a = c # a'" using ab by (cases a) auto
      with ab have "cs = a' @ sep @ b" by simp
      then show "\<exists>a b. cs = a @ sep @ b" by blast
    next
      assume "\<exists>a b. cs = a @ sep @ b"
      then obtain a b where "cs = a @ sep @ b" by blast
      then have "c # cs = (c # a) @ sep @ b" by simp
      then show "\<exists>a b. c # cs = a @ sep @ b" by blast
    qed
    with False Cons.IH [OF Cons.prems] show ?thesis
      by (simp add: Contains_def Index_Cons)
  qed
qed

text \<open>
  The separator \<open>->\<close> cannot overlap itself, so its first occurrence after a part
  without it is where that part ends.
\<close>

lemma Index_arrow_first:
  "\<not> Contains l ''->'' \<Longrightarrow> Index (l @ ''->'' @ r) ''->'' = Some (length l)"
proof (induction l)
  case Nil
  have "HasPrefix (''->'' @ r) ''->''" by (simp add: HasPrefix_iff)
  then show ?case by (simp add: Index_Cons)
next
  case (Cons c l)
  from Cons.prems have np: "\<not> HasPrefix (c # l) ''->''" and nl: "\<not> Contains l ''->''"
    by (auto simp: Contains_def Index_Cons split: if_splits)
  have "\<not> HasPrefix (c # l @ ''->'' @ r) ''->''"
  proof
    assume "HasPrefix (c # l @ ''->'' @ r) ''->''"
    then obtain b where b: "c # l @ ''->'' @ r = ''->'' @ b" by (auto simp: HasPrefix_iff)
    show False
    proof (cases l)
      case Nil
      with b show False by simp
    next
      case (Cons d l')
      with b have "c # l = ''->'' @ l'" by simp
      with np show False by (auto simp: HasPrefix_iff)
    qed
  qed
  with Cons.IH [OF nl] show ?case by (simp add: Index_Cons)
qed

lemma Split_none: "sep \<noteq> [] \<Longrightarrow> \<not> Contains s sep \<Longrightarrow> Split s sep = [s]"
  by (simp add: Split.simps [of s sep] Contains_def)

lemma Split_arrow_first:
  "\<not> Contains l ''->'' \<Longrightarrow> Split (l @ ''->'' @ r) ''->'' = l # Split r ''->''"
  using Index_arrow_first [of l r] by (subst Split.simps) simp

lemma Split_arrow_append_aux:
  "sep = ''->'' \<Longrightarrow> Split (a @ sep @ r) sep = Split a sep @ Split r sep"
proof (induction a sep rule: Split.induct)
  case (1 s sep)
  note sep = \<open>sep = ''->''\<close>
  show ?case
  proof (cases "Index s ''->''")
    case None
    then have "\<not> Contains s ''->''" by (simp add: Contains_def)
    then show ?thesis
      unfolding sep using Split_arrow_first [of s r] Split_none [of "''->''" s] by simp
  next
    case (Some m)
    from Index_Some [OF _ Some]
    have eq: "s = take m s @ ''->'' @ drop (m + 2) s"
      and none: "\<not> Contains (take m s) ''->''" by (simp_all add: Contains_def)
    have "s @ ''->'' @ r = take m s @ ''->'' @ (drop (m + 2) s @ ''->'' @ r)"
      using eq by (metis append_assoc)
    then have "Split (s @ ''->'' @ r) ''->''
                 = Split (take m s @ ''->'' @ (drop (m + 2) s @ ''->'' @ r)) ''->''"
      by (rule arg_cong)
    also have "\<dots> = take m s # Split (drop (m + 2) s @ ''->'' @ r) ''->''"
      by (rule Split_arrow_first [OF none])
    also have "\<dots> = take m s # (Split (drop (m + 2) s) ''->'' @ Split r ''->'')"
      using "1.IH" [of m] Some sep by simp
    also have "\<dots> = Split s ''->'' @ Split r ''->''"
      using Some by (simp add: Split.simps [of s])
    finally show ?thesis unfolding sep .
  qed
qed

lemma Split_arrow_append:
  "Split (a @ ''->'' @ r) ''->'' = Split a ''->'' @ Split r ''->''"
  by (rule Split_arrow_append_aux) simp

lemma Split_nonempty: "Split s sep \<noteq> [] \<or> (sep = [] \<and> s = [])"
  by (cases "Index s sep") (auto simp: Split.simps [of s sep])

lemma length_Split_arrow: "1 \<le> length (Split s ''->'')"
  using Split_nonempty [of s "''->''"] by (cases "Split s ''->''") auto

lemma arrow_cases:
  "\<not> Contains k ''->''
   \<or> (\<exists>l r. k = l @ ''->'' @ r \<and> \<not> Contains l ''->'' \<and> \<not> Contains r ''->'')
   \<or> (\<exists>a b c. k = a @ ''->'' @ b @ ''->'' @ c)"
proof (cases "Index k ''->''")
  case None
  then show ?thesis by (simp add: Contains_def)
next
  case (Some m)
  from Index_Some [OF _ Some]
  have eq: "k = take m k @ ''->'' @ drop (m + 2) k"
    and none: "\<not> Contains (take m k) ''->''" by (simp_all add: Contains_def)
  show ?thesis
  proof (cases "Contains (drop (m + 2) k) ''->''")
    case True
    then obtain b c where "drop (m + 2) k = b @ ''->'' @ c"
      using Contains_iff [of "''->''" "drop (m + 2) k"] by auto
    with eq have "k = take m k @ ''->'' @ b @ ''->'' @ c" by simp
    then show ?thesis by blast
  next
    case False
    with eq none show ?thesis by blast
  qed
qed

text \<open>
  C9. A key without the separator \<open>->\<close> gives the trimmed key as claim and as
  placeholder. A key with one separator gives the trimmed left part as claim and the
  trimmed right part as placeholder. A key with two or more separators is an error.
  The result is an error exactly when the key has two or more separators or one of the
  trimmed parts is empty, and every error carries the key.
\<close>

theorem parseMetaClaim_spec:
  "(\<not> Contains k ''->'' \<longrightarrow>
      parseMetaClaim k = (if TrimSpace k = [] then Inl (EmptyClaim k)
                          else Inr (TrimSpace k, TrimSpace k))) \<and>
   (\<forall>l r. k = l @ ''->'' @ r \<and> \<not> Contains l ''->'' \<and> \<not> Contains r ''->'' \<longrightarrow>
      parseMetaClaim k = (if TrimSpace l = [] then Inl (EmptyClaim k)
                          else if TrimSpace r = [] then Inl (EmptyPlaceholder k)
                          else Inr (TrimSpace l, TrimSpace r))) \<and>
   (\<forall>a b c. k = a @ ''->'' @ b @ ''->'' @ c \<longrightarrow> parseMetaClaim k = Inl (TooManyDelimiters k)) \<and>
   (isError (parseMetaClaim k) \<longleftrightarrow>
      (\<exists>a b c. k = a @ ''->'' @ b @ ''->'' @ c)
      \<or> (\<not> Contains k ''->'' \<and> TrimSpace k = [])
      \<or> (\<exists>l r. k = l @ ''->'' @ r \<and> \<not> Contains l ''->'' \<and> \<not> Contains r ''->''
                \<and> (TrimSpace l = [] \<or> TrimSpace r = []))) \<and>
   (\<forall>e. parseMetaClaim k = Inl e \<longrightarrow>
      e = TooManyDelimiters k \<or> e = EmptyClaim k \<or> e = EmptyPlaceholder k)"
proof -
  have none: "parseMetaClaim k = (if TrimSpace k = [] then Inl (EmptyClaim k)
                          else Inr (TrimSpace k, TrimSpace k))"
    if "\<not> Contains k ''->''"
  proof -
    from that have "Split k ''->'' = [k]" by (simp add: Split_none)
    then show ?thesis by (simp add: parseMetaClaim_def Let_def)
  qed
  have one: "parseMetaClaim k = (if TrimSpace l = [] then Inl (EmptyClaim k)
                          else if TrimSpace r = [] then Inl (EmptyPlaceholder k)
                          else Inr (TrimSpace l, TrimSpace r))"
    if "k = l @ ''->'' @ r \<and> \<not> Contains l ''->'' \<and> \<not> Contains r ''->''" for l r
  proof -
    from that have "Split k ''->'' = [l, r]"
      using Split_arrow_first [of l r] Split_none [of "''->''" r] by simp
    then show ?thesis by (simp add: parseMetaClaim_def Let_def)
  qed
  have many: "parseMetaClaim k = Inl (TooManyDelimiters k)"
    if k: "k = a @ ''->'' @ b @ ''->'' @ c" for a b c
  proof -
    have "length (Split k ''->'') =
            length (Split a ''->'') + length (Split b ''->'') + length (Split c ''->'')"
      unfolding k Split_arrow_append by simp
    with length_Split_arrow [of a] length_Split_arrow [of b] length_Split_arrow [of c]
    have "3 \<le> length (Split k ''->'')" by simp
    then show ?thesis by (simp add: parseMetaClaim_def Let_def)
  qed
  have err: "isError (parseMetaClaim k) \<longleftrightarrow>
      (\<exists>a b c. k = a @ ''->'' @ b @ ''->'' @ c)
      \<or> (\<not> Contains k ''->'' \<and> TrimSpace k = [])
      \<or> (\<exists>l r. k = l @ ''->'' @ r \<and> \<not> Contains l ''->'' \<and> \<not> Contains r ''->''
                \<and> (TrimSpace l = [] \<or> TrimSpace r = []))"
    (is "?L \<longleftrightarrow> ?R")
  proof
    assume L: ?L
    from arrow_cases [of k] show ?R
    proof (elim disjE exE)
      assume n: "\<not> Contains k ''->''"
      with L none have "TrimSpace k = []" by (auto simp: isError_def split: if_splits)
      with n show ?R by blast
    next
      fix l r
      assume lr: "k = l @ ''->'' @ r \<and> \<not> Contains l ''->'' \<and> \<not> Contains r ''->''"
      with L one [OF lr] have "TrimSpace l = [] \<or> TrimSpace r = []"
        by (auto simp: isError_def split: if_splits)
      with lr show ?R by blast
    next
      fix a b c
      assume "k = a @ ''->'' @ b @ ''->'' @ c"
      then show ?R by blast
    qed
  next
    assume R: ?R
    then show ?L
    proof (elim disjE)
      assume "\<exists>a b c. k = a @ ''->'' @ b @ ''->'' @ c"
      then obtain a b c where "k = a @ ''->'' @ b @ ''->'' @ c" by blast
      from many [OF this] show ?L by (simp add: isError_def)
    next
      assume "\<not> Contains k ''->'' \<and> TrimSpace k = []"
      with none show ?L by (simp add: isError_def)
    next
      assume "\<exists>l r. k = l @ ''->'' @ r \<and> \<not> Contains l ''->'' \<and> \<not> Contains r ''->''
                \<and> (TrimSpace l = [] \<or> TrimSpace r = [])"
      then obtain l r
        where lr: "k = l @ ''->'' @ r \<and> \<not> Contains l ''->'' \<and> \<not> Contains r ''->''"
          and e: "TrimSpace l = [] \<or> TrimSpace r = []" by blast
      from one [OF lr] e show ?L by (auto simp: isError_def)
    qed
  qed
  have names: "e = TooManyDelimiters k \<or> e = EmptyClaim k \<or> e = EmptyPlaceholder k"
    if "parseMetaClaim k = Inl e" for e
    using that by (auto simp: parseMetaClaim_def Let_def split: if_splits)
  from none one many err names show ?thesis by blast
qed

theorem parseMetaClaim_spec_witness:
  "\<not> Contains ''Gender'' ''->'' \<and> parseMetaClaim ''Gender'' = Inr (''Gender'', ''Gender'') \<and>
   \<not> Contains ''IsAdmin '' ''->'' \<and> \<not> Contains '' is_admin'' ''->'' \<and>
   parseMetaClaim (''IsAdmin '' @ ''->'' @ '' is_admin'') = Inr (''IsAdmin'', ''is_admin'') \<and>
   parseMetaClaim (''a'' @ ''->'' @ ''b'' @ ''->'' @ ''c'') = Inl (TooManyDelimiters ''a->b->c'') \<and>
   parseMetaClaim ('''' @ ''->'' @ ''x'') = Inl (EmptyClaim ''->x'') \<and>
   parseMetaClaim (''x'' @ ''->'' @ '''') = Inl (EmptyPlaceholder ''x->'') \<and>
   isError (parseMetaClaim ''x->'')"
proof -
  have c1: "\<not> Contains ''Gender'' ''->''" by code_simp
  have c2: "\<not> Contains ''IsAdmin '' ''->''" by code_simp
  have c3: "\<not> Contains '' is_admin'' ''->''" by code_simp
  have c4: "\<not> Contains '''' ''->''" by code_simp
  have c5: "\<not> Contains ''x'' ''->''" by code_simp
  have t1: "TrimSpace ''Gender'' = ''Gender''" by code_simp
  have t2: "TrimSpace ''IsAdmin '' = ''IsAdmin''" by code_simp
  have t3: "TrimSpace '' is_admin'' = ''is_admin''" by code_simp
  have t4: "TrimSpace '''' = ''''" by code_simp
  have t5: "TrimSpace ''x'' = ''x''" by code_simp
  have r1: "parseMetaClaim ''Gender'' = Inr (''Gender'', ''Gender'')"
    using parseMetaClaim_spec [of "''Gender''", THEN conjunct1] c1 t1 by simp
  have r2: "parseMetaClaim (''IsAdmin '' @ ''->'' @ '' is_admin'') = Inr (''IsAdmin'', ''is_admin'')"
    using parseMetaClaim_spec [of "''IsAdmin '' @ ''->'' @ '' is_admin''",
        THEN conjunct2, THEN conjunct1, rule_format, of "''IsAdmin ''" "'' is_admin''"]
      c2 c3 t2 t3 by simp
  have r3: "parseMetaClaim (''a'' @ ''->'' @ ''b'' @ ''->'' @ ''c'') = Inl (TooManyDelimiters ''a->b->c'')"
    using parseMetaClaim_spec [of "''a'' @ ''->'' @ ''b'' @ ''->'' @ ''c''",
        THEN conjunct2, THEN conjunct2, THEN conjunct1, rule_format, of "''a''" "''b''" "''c''"]
    by simp
  have r4: "parseMetaClaim ('''' @ ''->'' @ ''x'') = Inl (EmptyClaim ''->x'')"
    using parseMetaClaim_spec [of "'''' @ ''->'' @ ''x''",
        THEN conjunct2, THEN conjunct1, rule_format, of "''''" "''x''"]
      c4 c5 t4 t5 by simp
  have r5: "parseMetaClaim (''x'' @ ''->'' @ '''') = Inl (EmptyPlaceholder ''x->'')"
    using parseMetaClaim_spec [of "''x'' @ ''->'' @ ''''",
        THEN conjunct2, THEN conjunct1, rule_format, of "''x''" "''''"]
      c4 c5 t4 t5 by simp
  have r6: "isError (parseMetaClaim ''x->'')"
    using r5 by (simp add: isError_def)
  from c1 c2 c3 r1 r2 r3 r4 r5 r6 show ?thesis by simp
qed

section \<open>Reading claims never panics\<close>

lemma Split_not_Nil: "sep \<noteq> [] \<Longrightarrow> Split s sep \<noteq> []"
  using Split_nonempty [of s sep] by simp

lemma queryNested_returns: "path \<noteq> [] \<Longrightarrow> \<exists>v ok. queryNested claims path = Returns (v, ok)"
  by (auto simp: queryNested_def split: option.splits)

lemma lookupClaim_returns: "\<exists>v ok. lookupClaim claims claimName = Returns (v, ok)"
  using queryNested_returns [of "Split claimName ''.''" claims] Split_not_Nil [of "''.''" claimName]
  by (auto simp: lookupClaim_def split: option.splits)

lemma metadataLoop_returns: "\<exists>m. metadataLoop fm claims ps md = Returns m"
proof (induction ps arbitrary: md)
  case Nil
  then show ?case by simp
next
  case (Cons a ps)
  obtain claimName placeholder where a: "a = (claimName, placeholder)" by (cases a)
  obtain v ok where l: "lookupClaim claims claimName = Returns (v, ok)"
    using lookupClaim_returns by blast
  show ?case using Cons.IH by (simp add: a l)
qed

lemma getUserMetadata_returns: "\<exists>md. getUserMetadata fm tok ps = Returns md"
  using metadataLoop_returns [of fm "ClaimsRaw tok" ps Map.empty]
  by (auto simp: getUserMetadata_def)

section \<open>The candidates of a request\<close>

lemma fold_tokens:
  "fold (\<lambda>key tokens. let token = f key in if token \<noteq> [] then tokens @ [token] else tokens)
      names acc = acc @ filter (\<lambda>t. t \<noteq> []) (map f names)"
  by (induction names arbitrary: acc) (simp_all add: Let_def)

lemma getTokensFromHeader_eq:
  "getTokensFromHeader r names = filter (\<lambda>t. t \<noteq> []) (map (Header_Get r) names)"
  by (simp add: getTokensFromHeader_def fold_tokens)

lemma getTokensFromQuery_eq:
  "getTokensFromQuery r names = filter (\<lambda>t. t \<noteq> []) (map (Query_Get r) names)"
  by (simp add: getTokensFromQuery_def fold_tokens)

lemma fold_cookies:
  "fold (\<lambda>key tokens. case f key of
                          Some v \<Rightarrow> if v \<noteq> [] then tokens @ [v] else tokens
                        | None \<Rightarrow> tokens) names acc
     = acc @ filter (\<lambda>t. t \<noteq> []) (map (\<lambda>n. case f n of None \<Rightarrow> [] | Some v \<Rightarrow> v) names)"
  by (induction names arbitrary: acc) (simp_all split: option.splits)

lemma getTokensFromCookies_eq:
  "getTokensFromCookies r names = filter (\<lambda>t. t \<noteq> []) (map (cookieValue r) names)"
  unfolding getTokensFromCookies_def fold_cookies cookieValue_def by simp

lemma candidates_eq:
  "candidates p r =
     filter (\<lambda>t. t \<noteq> []) (map (Query_Get r) (FromQuery p))
     @ filter (\<lambda>t. t \<noteq> []) (map (Header_Get r) (FromHeader p))
     @ filter (\<lambda>t. t \<noteq> []) (map (cookieValue r) (FromCookies p))
     @ filter (\<lambda>t. t \<noteq> []) [Header_Get r ''Authorization'']"
  unfolding candidates_def getTokensFromQuery_eq getTokensFromHeader_eq getTokensFromCookies_eq
  by simp

section \<open>The body of the loop\<close>

lemma parsedTokens_append: "parsedTokens (a @ b) = parsedTokens a @ parsedTokens b"
  by (induction a rule: parsedTokens.induct) simp_all

lemma validatedTokens_append: "validatedTokens (a @ b) = validatedTokens a @ validatedTokens b"
  by (induction a rule: validatedTokens.induct) simp_all

lemma tryToken_parsed: "parsedTokens (snd (tryToken fm xp p s)) = [s]"
  by (simp add: tryToken_def Let_def split: sum.splits option.splits prod.splits outcome.splits)

lemma tryToken_validated:
  "validatedTokens (snd (tryToken fm xp p s)) = (case parsedOf xp p s of None \<Rightarrow> [] | Some tok \<Rightarrow> [tok])"
  by (simp add: tryToken_def parsedOf_def Let_def
      split: sum.splits option.splits prod.splits outcome.splits)

lemma tryToken_Continue: "\<not> passes fm xp p s \<Longrightarrow> fst (tryToken fm xp p s) = Continue"
  by (auto simp: tryToken_def passes_def Let_def
      split: sum.splits option.splits prod.splits outcome.splits)

lemma tryToken_Return:
  assumes "passes fm xp p s"
  shows "\<exists>tok md. ParseToken xp (key p) s = Inr tok
           \<and> getUserMetadata fm tok (MetaClaims p) = Returns md
           \<and> fst (tryToken fm xp p s)
               = Return (Returns (\<lparr>ID = snd (getUserID fm (ClaimsRaw tok) (UserClaims p)),
                                   Metadata = md\<rparr>, True, None))"
proof -
  from assms obtain tok where tok: "ParseToken xp (key p) s = Inr tok"
    and v: "ValidateToken xp tok (TimeSkewTolerance p) (extraValidRules p) = None"
    and u: "snd (getUserID fm (ClaimsRaw tok) (UserClaims p)) \<noteq> []"
    and a: "AllowUsers p = [] \<or> snd (getUserID fm (ClaimsRaw tok) (UserClaims p)) \<in> set (AllowUsers p)"
    by (auto simp: passes_def split: sum.splits)
  obtain md where md: "getUserMetadata fm tok (MetaClaims p) = Returns md"
    using getUserMetadata_returns by blast
  from tok v u a md have "fst (tryToken fm xp p s)
               = Return (Returns (\<lparr>ID = snd (getUserID fm (ClaimsRaw tok) (UserClaims p)),
                                   Metadata = md\<rparr>, True, None))"
    by (auto simp: tryToken_def Let_def split: prod.splits)
  with tok md show ?thesis by blast
qed

lemma fst_emit: "fst (emit es res) = fst res"
  by (simp add: emit_def)

lemma snd_emit: "snd (emit es res) = es @ snd res"
  by (simp add: emit_def)

lemma authLoop_skip:
  "normToken c \<in> checked \<Longrightarrow> authLoop fm xp p checked (c # rest) = authLoop fm xp p checked rest"
  by simp

lemma authLoop_continue:
  assumes "normToken c \<notin> checked" and "fst (tryToken fm xp p (normToken c)) = Continue"
  shows "authLoop fm xp p checked (c # rest)
           = emit (snd (tryToken fm xp p (normToken c)))
               (authLoop fm xp p (insert (normToken c) checked) rest)"
proof (cases "tryToken fm xp p (normToken c)")
  case (Pair st es)
  with assms show ?thesis by simp
qed

lemma authLoop_return:
  assumes "normToken c \<notin> checked" and "fst (tryToken fm xp p (normToken c)) = Return res"
  shows "authLoop fm xp p checked (c # rest) = (res, snd (tryToken fm xp p (normToken c)))"
proof (cases "tryToken fm xp p (normToken c)")
  case (Pair st es)
  with assms show ?thesis by simp
qed

lemma tryToken_fst:
  "fst (tryToken fm xp p s) = Continue
   \<or> (\<exists>u. fst (tryToken fm xp p s) = Return (Returns (u, True, None))
          \<and> ID u \<noteq> [] \<and> (AllowUsers p = [] \<or> ID u \<in> set (AllowUsers p)))"
proof (cases "passes fm xp p s")
  case False
  then show ?thesis by (simp add: tryToken_Continue)
next
  case True
  from tryToken_Return [OF True] obtain tok md
    where tok: "ParseToken xp (key p) s = Inr tok"
      and r: "fst (tryToken fm xp p s)
               = Return (Returns (\<lparr>ID = snd (getUserID fm (ClaimsRaw tok) (UserClaims p)),
                                   Metadata = md\<rparr>, True, None))"
    by blast
  from True tok have "snd (getUserID fm (ClaimsRaw tok) (UserClaims p)) \<noteq> []
      \<and> (AllowUsers p = [] \<or> snd (getUserID fm (ClaimsRaw tok) (UserClaims p)) \<in> set (AllowUsers p))"
    by (simp add: passes_def)
  with r show ?thesis by simp
qed

section \<open>The loop over the candidates\<close>

declare authLoop.simps(2) [simp del]

lemma authLoop_reject:
  "\<forall>x\<in>set cs. \<not> passes fm xp p (normToken x) \<Longrightarrow>
     fst (authLoop fm xp p checked cs) = Returns (\<lparr>ID = [], Metadata = None\<rparr>, False, None)
     \<and> parsedTokens (snd (authLoop fm xp p checked cs)) = unseen checked (map normToken cs)"
proof (induction cs arbitrary: checked)
  case Nil
  then show ?case by simp
next
  case (Cons c cs)
  show ?case
  proof (cases "normToken c \<in> checked")
    case True
    with Cons show ?thesis by (simp add: authLoop_skip)
  next
    case False
    from Cons.prems have "fst (tryToken fm xp p (normToken c)) = Continue"
      by (simp add: tryToken_Continue)
    from authLoop_continue [OF False this] Cons False show ?thesis
      by (simp add: fst_emit snd_emit parsedTokens_append tryToken_parsed)
  qed
qed

lemma authLoop_accept:
  "\<forall>x\<in>set pre. \<not> passes fm xp p (normToken x) \<Longrightarrow> passes fm xp p (normToken c) \<Longrightarrow>
   normToken c \<notin> checked \<Longrightarrow>
     fst (tryToken fm xp p (normToken c)) = Return (fst (authLoop fm xp p checked (pre @ c # post)))
     \<and> parsedTokens (snd (authLoop fm xp p checked (pre @ c # post)))
         = unseen checked (map normToken (pre @ [c]))"
proof (induction pre arbitrary: checked)
  case Nil
  from tryToken_Return [OF Nil.prems(2)] obtain res
    where r: "fst (tryToken fm xp p (normToken c)) = Return res" by blast
  from authLoop_return [OF Nil.prems(3) r] r Nil.prems(3) show ?case
    by (simp add: tryToken_parsed)
next
  case (Cons x pre)
  show ?case
  proof (cases "normToken x \<in> checked")
    case True
    with Cons show ?thesis by (simp add: authLoop_skip)
  next
    case False
    from Cons.prems have nx: "\<not> passes fm xp p (normToken x)" by simp
    then have k: "fst (tryToken fm xp p (normToken x)) = Continue"
      by (simp add: tryToken_Continue)
    from nx Cons.prems(2) have "normToken c \<noteq> normToken x" by auto
    with Cons.prems(3) have "normToken c \<notin> insert (normToken x) checked" by simp
    with Cons.IH [of "insert (normToken x) checked"] Cons.prems
    have "fst (tryToken fm xp p (normToken c))
            = Return (fst (authLoop fm xp p (insert (normToken x) checked) (pre @ c # post)))
          \<and> parsedTokens (snd (authLoop fm xp p (insert (normToken x) checked) (pre @ c # post)))
              = unseen (insert (normToken x) checked) (map normToken (pre @ [c]))"
      by simp
    with authLoop_continue [OF False k, of "pre @ c # post"] False show ?thesis
      by (simp add: fst_emit snd_emit parsedTokens_append tryToken_parsed)
  qed
qed

lemma set_unseen: "set (unseen seen xs) = set xs - seen"
  by (induction xs arbitrary: seen) auto

lemma distinct_unseen: "distinct (unseen seen xs)"
  by (induction xs arbitrary: seen) (auto simp: set_unseen)

lemma authLoop_parsed:
  "distinct (parsedTokens (snd (authLoop fm xp p checked cs)))
   \<and> set (parsedTokens (snd (authLoop fm xp p checked cs))) \<subseteq> normToken ` set cs - checked"
proof (induction cs arbitrary: checked)
  case Nil
  then show ?case by simp
next
  case (Cons c cs)
  show ?case
  proof (cases "normToken c \<in> checked")
    case True
    with Cons [of checked] show ?thesis by (auto simp: authLoop_skip)
  next
    case False
    show ?thesis
    proof (cases "fst (tryToken fm xp p (normToken c))")
      case Continue
      from authLoop_continue [OF False Continue, of cs] Cons [of "insert (normToken c) checked"] False
      show ?thesis
        by (auto simp: fst_emit snd_emit parsedTokens_append tryToken_parsed)
    next
      case (Return res)
      from authLoop_return [OF False Return, of cs] False show ?thesis
        by (simp add: tryToken_parsed)
    qed
  qed
qed

lemma authLoop_validated:
  "validatedTokens (snd (authLoop fm xp p checked cs))
     = List.map_filter (parsedOf xp p) (parsedTokens (snd (authLoop fm xp p checked cs)))"
proof (induction cs arbitrary: checked)
  case Nil
  then show ?case by (simp add:)
next
  case (Cons c cs)
  show ?case
  proof (cases "normToken c \<in> checked")
    case True
    with Cons [of checked] show ?thesis by (simp add: authLoop_skip)
  next
    case False
    show ?thesis
    proof (cases "fst (tryToken fm xp p (normToken c))")
      case Continue
      from authLoop_continue [OF False Continue, of cs] Cons [of "insert (normToken c) checked"]
      show ?thesis
        by (simp add: snd_emit parsedTokens_append validatedTokens_append tryToken_parsed
            tryToken_validated split: option.splits)
    next
      case (Return res)
      from authLoop_return [OF False Return, of cs] show ?thesis
        by (simp add: tryToken_parsed tryToken_validated
            split: option.splits)
    qed
  qed
qed

lemma authLoop_result:
  "fst (authLoop fm xp p checked cs) = Returns (\<lparr>ID = [], Metadata = None\<rparr>, False, None)
   \<or> (\<exists>u. fst (authLoop fm xp p checked cs) = Returns (u, True, None)
          \<and> ID u \<noteq> [] \<and> (AllowUsers p = [] \<or> ID u \<in> set (AllowUsers p)))"
proof (induction cs arbitrary: checked)
  case Nil
  then show ?case by simp
next
  case (Cons c cs)
  show ?case
  proof (cases "normToken c \<in> checked")
    case True
    with Cons [of checked] show ?thesis by (simp add: authLoop_skip)
  next
    case False
    show ?thesis
    proof (cases "fst (tryToken fm xp p (normToken c))")
      case Continue
      from authLoop_continue [OF False Continue, of cs] Cons [of "insert (normToken c) checked"]
      show ?thesis by (simp add: fst_emit)
    next
      case (Return res)
      with tryToken_fst [of fm xp p "normToken c"] authLoop_return [OF False Return, of cs]
      show ?thesis by auto
    qed
  qed
qed

lemma authLoop_reached:
  "\<forall>x\<in>set pre. \<not> passes fm xp p (normToken x) \<Longrightarrow> normToken c \<notin> checked \<Longrightarrow>
     normToken c \<in> set (parsedTokens (snd (authLoop fm xp p checked (pre @ c # post))))"
proof (induction pre arbitrary: checked)
  case Nil
  show ?case
  proof (cases "fst (tryToken fm xp p (normToken c))")
    case Continue
    from authLoop_continue [OF Nil.prems(2) Continue, of post] show ?thesis
      by (simp add: snd_emit parsedTokens_append tryToken_parsed)
  next
    case (Return res)
    from authLoop_return [OF Nil.prems(2) Return, of post] show ?thesis
      by (simp add: tryToken_parsed)
  qed
next
  case (Cons x pre)
  show ?case
  proof (cases "normToken x \<in> checked")
    case True
    with Cons show ?thesis by (simp add: authLoop_skip)
  next
    case False
    from Cons.prems have k: "fst (tryToken fm xp p (normToken x)) = Continue"
      by (simp add: tryToken_Continue)
    show ?thesis
    proof (cases "normToken c = normToken x")
      case True
      with authLoop_continue [OF False k, of "pre @ c # post"] show ?thesis
        by (simp add: snd_emit parsedTokens_append tryToken_parsed)
    next
      case neq: False
      with Cons.prems have "normToken c \<notin> insert (normToken x) checked" by simp
      with Cons.IH [of "insert (normToken x) checked"] Cons.prems
        authLoop_continue [OF False k, of "pre @ c # post"]
      show ?thesis
        by (simp add: snd_emit parsedTokens_append tryToken_parsed)
    qed
  qed
qed

section \<open>The examples, evaluated\<close>

lemma ex_candidates:
  "candidates exConfig exRequest = [''Bearer tokA '', ''tokA'', ''Bearer junk'', ''Bearer tokB'']"
  by code_simp

lemma ex_candidates_Alice: "candidates exConfig exRequestAlice = [''tokA'', ''tokA'']"
  by code_simp

lemma ex_norm:
  "normToken ''Bearer tokA '' = ''tokA''" "normToken ''tokA'' = ''tokA''"
  "normToken ''Bearer junk'' = ''junk''" "normToken ''Bearer tokB'' = ''tokB''"
  by code_simp+

lemma ex_passes:
  "\<not> passes exFormats exLibrary exConfig ''tokA''"
  "\<not> passes exFormats exLibrary exConfig ''junk''"
  "passes exFormats exLibrary exConfig ''tokB''"
  by code_simp+

lemma ex_metadata:
  "getUserMetadata exFormats \<lparr>ClaimsRaw = [(''sub'', VString ''Bob''), (''iss'', VString ''test'')]\<rparr>
     (MetaClaims exConfig) = Returns (Some [''issuer'' \<mapsto> ''test''])"
  by (simp add: getUserMetadata_def exConfig_def lookupClaim_def)

lemma ex_parse:
  "ParseToken exLibrary (key exConfig) ''tokA'' = Inr \<lparr>ClaimsRaw = [(''sub'', VString ''Alice'')]\<rparr>"
  "ParseToken exLibrary (key exConfig) ''tokB''
     = Inr \<lparr>ClaimsRaw = [(''sub'', VString ''Bob''), (''iss'', VString ''test'')]\<rparr>"
  "ParseToken exLibrary (key exConfig) ''junk'' = Inl ''malformed token''"
  by (simp_all add: exLibrary_def)

lemma ex_Alice_trace:
  "parsedTokens (snd (Authenticate exFormats exLibrary exConfig exRequestAlice)) = [''tokA'']"
  using authLoop_reject [of "candidates exConfig exRequestAlice" exFormats exLibrary exConfig "{}"]
  by (simp add: Authenticate_def ex_candidates_Alice ex_norm ex_passes)

section \<open>Order of the candidates and the first that passes\<close>

text \<open>
  C3. The candidates are the values of the configured query parameters, then of the
  configured headers, then of the configured cookies, then of the \<open>Authorization\<close>
  header, each list in the configured order, empty values left out and nothing else
  removed. When the candidates before \<open>c\<close> do not pass and \<open>c\<close> passes, \<open>Authenticate\<close>
  returns the user of \<open>c\<close> with success, and the parser has seen exactly the normalised
  candidates up to \<open>c\<close>, each once and in order: none of the candidates after \<open>c\<close>.
\<close>

theorem Authenticate_first_passing:
  "candidates p r =
     filter (\<lambda>t. t \<noteq> []) (map (Query_Get r) (FromQuery p))
     @ filter (\<lambda>t. t \<noteq> []) (map (Header_Get r) (FromHeader p))
     @ filter (\<lambda>t. t \<noteq> []) (map (cookieValue r) (FromCookies p))
     @ filter (\<lambda>t. t \<noteq> []) [Header_Get r ''Authorization'']
   \<and> (\<forall>pre c post.
         candidates p r = pre @ c # post
         \<and> (\<forall>x\<in>set pre. \<not> passes fm xp p (normToken x)) \<and> passes fm xp p (normToken c)
         \<longrightarrow> (\<exists>tok md. ParseToken xp (key p) (normToken c) = Inr tok
                  \<and> getUserMetadata fm tok (MetaClaims p) = Returns md
                  \<and> fst (Authenticate fm xp p r)
                      = Returns (\<lparr>ID = snd (getUserID fm (ClaimsRaw tok) (UserClaims p)),
                                  Metadata = md\<rparr>, True, None))
             \<and> parsedTokens (snd (Authenticate fm xp p r)) = unseen {} (map normToken (pre @ [c])))"
proof (intro conjI allI impI)
  show "candidates p r =
     filter (\<lambda>t. t \<noteq> []) (map (Query_Get r) (FromQuery p))
     @ filter (\<lambda>t. t \<noteq> []) (map (Header_Get r) (FromHeader p))
     @ filter (\<lambda>t. t \<noteq> []) (map (cookieValue r) (FromCookies p))
     @ filter (\<lambda>t. t \<noteq> []) [Header_Get r ''Authorization'']"
    by (rule candidates_eq)
next
  fix pre c post
  assume h: "candidates p r = pre @ c # post
         \<and> (\<forall>x\<in>set pre. \<not> passes fm xp p (normToken x)) \<and> passes fm xp p (normToken c)"
  then have acc: "fst (tryToken fm xp p (normToken c))
                    = Return (fst (authLoop fm xp p {} (pre @ c # post)))
      \<and> parsedTokens (snd (authLoop fm xp p {} (pre @ c # post)))
           = unseen {} (map normToken (pre @ [c]))"
    using authLoop_accept [of pre fm xp p c "{}" post] by simp
  from h tryToken_Return [of fm xp p "normToken c"] obtain tok md
    where t: "ParseToken xp (key p) (normToken c) = Inr tok"
      "getUserMetadata fm tok (MetaClaims p) = Returns md"
      "fst (tryToken fm xp p (normToken c))
         = Return (Returns (\<lparr>ID = snd (getUserID fm (ClaimsRaw tok) (UserClaims p)),
                             Metadata = md\<rparr>, True, None))"
    by blast
  from t(3) acc h have "fst (Authenticate fm xp p r)
      = Returns (\<lparr>ID = snd (getUserID fm (ClaimsRaw tok) (UserClaims p)), Metadata = md\<rparr>,
                 True, None)"
    by (simp add: Authenticate_def)
  with t show "\<exists>tok md. ParseToken xp (key p) (normToken c) = Inr tok
                  \<and> getUserMetadata fm tok (MetaClaims p) = Returns md
                  \<and> fst (Authenticate fm xp p r)
                      = Returns (\<lparr>ID = snd (getUserID fm (ClaimsRaw tok) (UserClaims p)),
                                  Metadata = md\<rparr>, True, None)"
    by blast
  from acc h show "parsedTokens (snd (Authenticate fm xp p r)) = unseen {} (map normToken (pre @ [c]))"
    by (simp add: Authenticate_def)
qed

theorem Authenticate_first_passing_witness:
  "candidates exConfig exRequest = [''Bearer tokA '', ''tokA'', ''Bearer junk''] @ ''Bearer tokB'' # []
   \<and> \<not> passes exFormats exLibrary exConfig (normToken ''Bearer tokA '')
   \<and> \<not> passes exFormats exLibrary exConfig (normToken ''tokA'')
   \<and> \<not> passes exFormats exLibrary exConfig (normToken ''Bearer junk'')
   \<and> passes exFormats exLibrary exConfig (normToken ''Bearer tokB'')
   \<and> fst (Authenticate exFormats exLibrary exConfig exRequest)
       = Returns (\<lparr>ID = ''Bob'', Metadata = Some [''issuer'' \<mapsto> ''test'']\<rparr>, True, None)
   \<and> parsedTokens (snd (Authenticate exFormats exLibrary exConfig exRequest))
       = [''tokA'', ''junk'', ''tokB'']"
proof -
  have c: "candidates exConfig exRequest
             = [''Bearer tokA '', ''tokA'', ''Bearer junk''] @ ''Bearer tokB'' # []"
    using ex_candidates by simp
  have h: "candidates exConfig exRequest
             = [''Bearer tokA '', ''tokA'', ''Bearer junk''] @ ''Bearer tokB'' # []
         \<and> (\<forall>x\<in>set [''Bearer tokA '', ''tokA'', ''Bearer junk''].
               \<not> passes exFormats exLibrary exConfig (normToken x))
         \<and> passes exFormats exLibrary exConfig (normToken ''Bearer tokB'')"
    using c ex_passes by (simp add: ex_norm)
  from Authenticate_first_passing [of exConfig exRequest exFormats exLibrary,
      THEN conjunct2, rule_format, OF h]
  obtain tok md where t: "ParseToken exLibrary (key exConfig) (normToken ''Bearer tokB'') = Inr tok"
      "getUserMetadata exFormats tok (MetaClaims exConfig) = Returns md"
      "fst (Authenticate exFormats exLibrary exConfig exRequest)
         = Returns (\<lparr>ID = snd (getUserID exFormats (ClaimsRaw tok) (UserClaims exConfig)),
                     Metadata = md\<rparr>, True, None)"
    and tr: "parsedTokens (snd (Authenticate exFormats exLibrary exConfig exRequest))
         = unseen {} (map normToken ([''Bearer tokA '', ''tokA'', ''Bearer junk''] @ [''Bearer tokB'']))"
    by blast
  from t(1) have tok: "tok = \<lparr>ClaimsRaw = [(''sub'', VString ''Bob''), (''iss'', VString ''test'')]\<rparr>"
    by (simp add: ex_norm ex_parse)
  from t(2) have md: "md = Some [''issuer'' \<mapsto> ''test'']"
    by (simp add: tok ex_metadata)
  have uid: "snd (getUserID exFormats (ClaimsRaw tok) (UserClaims exConfig)) = ''Bob''"
    by (simp add: tok exConfig_def)
  from t(3) have res: "fst (Authenticate exFormats exLibrary exConfig exRequest)
       = Returns (\<lparr>ID = ''Bob'', Metadata = Some [''issuer'' \<mapsto> ''test'']\<rparr>, True, None)"
    by (simp only: uid md)
  from tr have trace: "parsedTokens (snd (Authenticate exFormats exLibrary exConfig exRequest))
       = [''tokA'', ''junk'', ''tokB'']"
    by (simp add: ex_norm)
  from c ex_passes res trace show ?thesis by (simp add: ex_norm)
qed

section \<open>Deduplication\<close>

lemma count_list_distinct: "distinct xs \<Longrightarrow> count_list xs s \<le> 1"
  by (induction xs) (auto simp: count_list_0_iff)

text \<open>
  C4. In one invocation of \<open>Authenticate\<close> the strings handed to the parser are pairwise
  different, so no string is parsed more than once; each of them is the normalised form
  of a candidate; and the validator is called exactly on the tokens of the parsed
  strings that parse, so at most once for each string too.
\<close>

theorem Authenticate_parses_once:
  "distinct (parsedTokens (snd (Authenticate fm xp p r)))
   \<and> count_list (parsedTokens (snd (Authenticate fm xp p r))) s \<le> 1
   \<and> set (parsedTokens (snd (Authenticate fm xp p r))) \<subseteq> normToken ` set (candidates p r)
   \<and> validatedTokens (snd (Authenticate fm xp p r))
       = List.map_filter (parsedOf xp p) (parsedTokens (snd (Authenticate fm xp p r)))"
proof -
  from authLoop_parsed [of fm xp p "{}" "candidates p r"]
  have d: "distinct (parsedTokens (snd (Authenticate fm xp p r)))"
    and s: "set (parsedTokens (snd (Authenticate fm xp p r))) \<subseteq> normToken ` set (candidates p r)"
    by (simp_all add: Authenticate_def)
  from d have "count_list (parsedTokens (snd (Authenticate fm xp p r))) s \<le> 1"
    by (rule count_list_distinct)
  with d s authLoop_validated [of fm xp p "{}" "candidates p r"] show ?thesis
    by (simp add: Authenticate_def)
qed

theorem Authenticate_parses_once_witness:
  "candidates exConfig exRequestAlice = [''tokA'', ''tokA'']
   \<and> parsedTokens (snd (Authenticate exFormats exLibrary exConfig exRequestAlice)) = [''tokA'']
   \<and> count_list (parsedTokens (snd (Authenticate exFormats exLibrary exConfig exRequestAlice)))
        ''tokA'' \<le> 1
   \<and> validatedTokens (snd (Authenticate exFormats exLibrary exConfig exRequestAlice))
       = [\<lparr>ClaimsRaw = [(''sub'', VString ''Alice'')]\<rparr>]"
proof -
  from Authenticate_parses_once [of exFormats exLibrary exConfig exRequestAlice "''tokA''"]
  have c: "count_list (parsedTokens (snd (Authenticate exFormats exLibrary exConfig exRequestAlice)))
        ''tokA'' \<le> 1"
    and v: "validatedTokens (snd (Authenticate exFormats exLibrary exConfig exRequestAlice))
       = List.map_filter (parsedOf exLibrary exConfig)
           (parsedTokens (snd (Authenticate exFormats exLibrary exConfig exRequestAlice)))"
    by simp_all
  from v have "validatedTokens (snd (Authenticate exFormats exLibrary exConfig exRequestAlice))
       = [\<lparr>ClaimsRaw = [(''sub'', VString ''Alice'')]\<rparr>]"
    by (simp add: ex_Alice_trace parsedOf_def ex_parse List.map_filter_simps)
  with c ex_candidates_Alice ex_Alice_trace show ?thesis by simp
qed

section \<open>Failure is a result, not an error\<close>

text \<open>
  C5. \<open>Authenticate\<close> always returns, and with a nil error. When no candidate passes it
  returns the empty user and \<open>false\<close>, and whenever it returns \<open>false\<close> the user is empty.
  A token string that fails to parse, fails validation, has an empty identity or a user
  that is not allowed makes the body of the loop continue, and the loop then goes on with
  the remaining candidates.
\<close>

theorem Authenticate_never_errors:
  "(\<exists>u b. fst (Authenticate fm xp p r) = Returns (u, b, None))
   \<and> ((\<forall>x\<in>set (candidates p r). \<not> passes fm xp p (normToken x))
        \<longrightarrow> fst (Authenticate fm xp p r) = Returns (\<lparr>ID = [], Metadata = None\<rparr>, False, None))
   \<and> (\<forall>u e. fst (Authenticate fm xp p r) = Returns (u, False, e)
        \<longrightarrow> u = \<lparr>ID = [], Metadata = None\<rparr> \<and> e = None)
   \<and> (\<forall>s. (\<exists>err. ParseToken xp (key p) s = Inl err)
          \<or> (\<exists>tok. ParseToken xp (key p) s = Inr tok
                \<and> (ValidateToken xp tok (TimeSkewTolerance p) (extraValidRules p) \<noteq> None
                    \<or> snd (getUserID fm (ClaimsRaw tok) (UserClaims p)) = []
                    \<or> (AllowUsers p \<noteq> []
                        \<and> snd (getUserID fm (ClaimsRaw tok) (UserClaims p)) \<notin> set (AllowUsers p))))
        \<longrightarrow> fst (tryToken fm xp p s) = Continue)
   \<and> (\<forall>c rest checked.
         normToken c \<notin> checked \<and> fst (tryToken fm xp p (normToken c)) = Continue
         \<longrightarrow> fst (authLoop fm xp p checked (c # rest))
               = fst (authLoop fm xp p (insert (normToken c) checked) rest))"
proof -
  have c1: "\<exists>u b. fst (Authenticate fm xp p r) = Returns (u, b, None)"
    using authLoop_result [of fm xp p "{}" "candidates p r"]
    by (auto simp: Authenticate_def)
  have c2: "(\<forall>x\<in>set (candidates p r). \<not> passes fm xp p (normToken x))
        \<longrightarrow> fst (Authenticate fm xp p r) = Returns (\<lparr>ID = [], Metadata = None\<rparr>, False, None)"
    using authLoop_reject [of "candidates p r" fm xp p "{}"]
    by (simp add: Authenticate_def)
  have c3: "\<forall>u e. fst (Authenticate fm xp p r) = Returns (u, False, e)
        \<longrightarrow> u = \<lparr>ID = [], Metadata = None\<rparr> \<and> e = None"
    using authLoop_result [of fm xp p "{}" "candidates p r"]
    by (auto simp: Authenticate_def)
  have c4: "\<forall>s. (\<exists>err. ParseToken xp (key p) s = Inl err)
          \<or> (\<exists>tok. ParseToken xp (key p) s = Inr tok
                \<and> (ValidateToken xp tok (TimeSkewTolerance p) (extraValidRules p) \<noteq> None
                    \<or> snd (getUserID fm (ClaimsRaw tok) (UserClaims p)) = []
                    \<or> (AllowUsers p \<noteq> []
                        \<and> snd (getUserID fm (ClaimsRaw tok) (UserClaims p)) \<notin> set (AllowUsers p))))
        \<longrightarrow> fst (tryToken fm xp p s) = Continue"
  proof (intro allI impI)
    fix s
    assume "(\<exists>err. ParseToken xp (key p) s = Inl err)
          \<or> (\<exists>tok. ParseToken xp (key p) s = Inr tok
                \<and> (ValidateToken xp tok (TimeSkewTolerance p) (extraValidRules p) \<noteq> None
                    \<or> snd (getUserID fm (ClaimsRaw tok) (UserClaims p)) = []
                    \<or> (AllowUsers p \<noteq> []
                        \<and> snd (getUserID fm (ClaimsRaw tok) (UserClaims p)) \<notin> set (AllowUsers p))))"
    then have "\<not> passes fm xp p s"
      by (auto simp: passes_def)
    then show "fst (tryToken fm xp p s) = Continue"
      by (rule tryToken_Continue)
  qed
  have c5: "\<forall>c rest checked.
         normToken c \<notin> checked \<and> fst (tryToken fm xp p (normToken c)) = Continue
         \<longrightarrow> fst (authLoop fm xp p checked (c # rest))
               = fst (authLoop fm xp p (insert (normToken c) checked) rest)"
    using authLoop_continue [of _ _ fm xp p] by (simp add: fst_emit)
  show ?thesis
    by (rule conjI [OF c1 conjI [OF c2 conjI [OF c3 conjI [OF c4 c5]]]])
qed

theorem Authenticate_never_errors_witness:
  "\<not> passes exFormats exLibrary exConfig (normToken ''tokA'')
   \<and> fst (Authenticate exFormats exLibrary exConfig exRequestAlice)
       = Returns (\<lparr>ID = [], Metadata = None\<rparr>, False, None)
   \<and> ParseToken exLibrary (key exConfig) ''junk'' = Inl ''malformed token''
   \<and> fst (tryToken exFormats exLibrary exConfig ''junk'') = Continue
   \<and> fst (authLoop exFormats exLibrary exConfig {} [''Bearer junk'', ''Bearer tokB''])
       = fst (authLoop exFormats exLibrary exConfig {''junk''} [''Bearer tokB''])"
proof -
  note inst = Authenticate_never_errors [of exFormats exLibrary exConfig exRequestAlice]
  have a: "\<forall>x\<in>set (candidates exConfig exRequestAlice).
             \<not> passes exFormats exLibrary exConfig (normToken x)"
    by (simp add: ex_candidates_Alice ex_norm ex_passes)
  from inst [THEN conjunct2, THEN conjunct1, THEN mp, OF a]
  have r: "fst (Authenticate exFormats exLibrary exConfig exRequestAlice)
       = Returns (\<lparr>ID = [], Metadata = None\<rparr>, False, None)" .
  have "\<exists>err. ParseToken exLibrary (key exConfig) ''junk'' = Inl err"
    by (simp add: ex_parse)
  then have k: "fst (tryToken exFormats exLibrary exConfig ''junk'') = Continue"
    using inst [THEN conjunct2, THEN conjunct2, THEN conjunct2, THEN conjunct1, rule_format,
        of "''junk''"] by blast
  have "normToken ''Bearer junk'' \<notin> {}
      \<and> fst (tryToken exFormats exLibrary exConfig (normToken ''Bearer junk'')) = Continue"
    using k by (simp add: ex_norm)
  from inst [THEN conjunct2, THEN conjunct2, THEN conjunct2, THEN conjunct2, rule_format, OF this]
  have l: "fst (authLoop exFormats exLibrary exConfig {} [''Bearer junk'', ''Bearer tokB''])
       = fst (authLoop exFormats exLibrary exConfig {''junk''} [''Bearer tokB''])"
    by (simp add: ex_norm)
  from r k l ex_passes ex_parse show ?thesis by (simp add: ex_norm)
qed

section \<open>The list of allowed users\<close>

text \<open>
  C6. A token string that parses, validates and resolves to an identity that is not
  empty, while the list of allowed users is not empty and does not have the identity,
  makes the body of the loop continue with the warning \<open>user is not allowed\<close>, and the
  loop goes on with the candidates that remain. So a user that \<open>Authenticate\<close> returns
  with success under a list of allowed users that is not empty is in the list.
\<close>

theorem allow_users_enforced:
  "(ParseToken xp (key p) s = Inr tok
    \<and> ValidateToken xp tok (TimeSkewTolerance p) (extraValidRules p) = None
    \<and> snd (getUserID fm (ClaimsRaw tok) (UserClaims p)) \<noteq> []
    \<and> AllowUsers p \<noteq> []
    \<and> snd (getUserID fm (ClaimsRaw tok) (UserClaims p)) \<notin> set (AllowUsers p)
    \<longrightarrow> tryToken fm xp p s
          = (Continue,
             [CallParseToken (key p) s,
              CallValidate tok (TimeSkewTolerance p) (extraValidRules p),
              LogWarn (maskToken s) ''user is not allowed''
                [(''user_id'', [snd (getUserID fm (ClaimsRaw tok) (UserClaims p))])]])
        \<and> (\<forall>c rest checked.
              normToken c = s \<and> s \<notin> checked
              \<longrightarrow> fst (authLoop fm xp p checked (c # rest))
                    = fst (authLoop fm xp p (insert s checked) rest)))
   \<and> (\<forall>u e. fst (Authenticate fm xp p r) = Returns (u, True, e) \<and> AllowUsers p \<noteq> []
         \<longrightarrow> ID u \<in> set (AllowUsers p))"
proof -
  have c1: "tryToken fm xp p s
          = (Continue,
             [CallParseToken (key p) s,
              CallValidate tok (TimeSkewTolerance p) (extraValidRules p),
              LogWarn (maskToken s) ''user is not allowed''
                [(''user_id'', [snd (getUserID fm (ClaimsRaw tok) (UserClaims p))])]])
        \<and> (\<forall>c rest checked.
              normToken c = s \<and> s \<notin> checked
              \<longrightarrow> fst (authLoop fm xp p checked (c # rest))
                    = fst (authLoop fm xp p (insert s checked) rest))"
    if h: "ParseToken xp (key p) s = Inr tok
    \<and> ValidateToken xp tok (TimeSkewTolerance p) (extraValidRules p) = None
    \<and> snd (getUserID fm (ClaimsRaw tok) (UserClaims p)) \<noteq> []
    \<and> AllowUsers p \<noteq> []
    \<and> snd (getUserID fm (ClaimsRaw tok) (UserClaims p)) \<notin> set (AllowUsers p)"
  proof -
    obtain n uid where g: "getUserID fm (ClaimsRaw tok) (UserClaims p) = (n, uid)"
      by (cases "getUserID fm (ClaimsRaw tok) (UserClaims p)")
    from h g have t: "tryToken fm xp p s
          = (Continue,
             [CallParseToken (key p) s,
              CallValidate tok (TimeSkewTolerance p) (extraValidRules p),
              LogWarn (maskToken s) ''user is not allowed''
                [(''user_id'', [snd (getUserID fm (ClaimsRaw tok) (UserClaims p))])]])"
      by (simp add: tryToken_def Let_def)
    then have k: "fst (tryToken fm xp p s) = Continue" by simp
    have "fst (authLoop fm xp p checked (c # rest))
            = fst (authLoop fm xp p (insert s checked) rest)"
      if "normToken c = s \<and> s \<notin> checked" for c rest checked
      using that k authLoop_continue [of c checked fm xp p rest] by (simp add: fst_emit)
    with t show ?thesis by blast
  qed
  have c2: "\<forall>u e. fst (Authenticate fm xp p r) = Returns (u, True, e) \<and> AllowUsers p \<noteq> []
         \<longrightarrow> ID u \<in> set (AllowUsers p)"
    using authLoop_result [of fm xp p "{}" "candidates p r"]
    by (auto simp: Authenticate_def)
  from c1 c2 show ?thesis by blast
qed

theorem allow_users_enforced_witness:
  "ParseToken exLibrary (key exConfig) ''tokA'' = Inr \<lparr>ClaimsRaw = [(''sub'', VString ''Alice'')]\<rparr>
   \<and> ValidateToken exLibrary \<lparr>ClaimsRaw = [(''sub'', VString ''Alice'')]\<rparr>
        (TimeSkewTolerance exConfig) (extraValidRules exConfig) = None
   \<and> snd (getUserID exFormats [(''sub'', VString ''Alice'')] (UserClaims exConfig)) = ''Alice''
   \<and> AllowUsers exConfig = [''Bob'']
   \<and> tryToken exFormats exLibrary exConfig ''tokA''
        = (Continue,
           [CallParseToken ''00'' ''tokA'',
            CallValidate \<lparr>ClaimsRaw = [(''sub'', VString ''Alice'')]\<rparr> 30000000000 [],
            LogWarn ''tokA'' ''user is not allowed'' [(''user_id'', [''Alice''])]])
   \<and> fst (authLoop exFormats exLibrary exConfig {} [''tokA'', ''Bearer tokB''])
        = fst (authLoop exFormats exLibrary exConfig {''tokA''} [''Bearer tokB''])
   \<and> fst (Authenticate exFormats exLibrary exConfig exRequestAlice)
        = Returns (\<lparr>ID = [], Metadata = None\<rparr>, False, None)"
proof -
  have v: "ValidateToken exLibrary \<lparr>ClaimsRaw = [(''sub'', VString ''Alice'')]\<rparr>
        (TimeSkewTolerance exConfig) (extraValidRules exConfig) = None"
    by (simp add: exLibrary_def)
  have u: "snd (getUserID exFormats [(''sub'', VString ''Alice'')] (UserClaims exConfig)) = ''Alice''"
    by (simp add: exConfig_def)
  have a: "AllowUsers exConfig = [''Bob'']" by (simp add: exConfig_def)
  have h: "ParseToken exLibrary (key exConfig) ''tokA'' = Inr \<lparr>ClaimsRaw = [(''sub'', VString ''Alice'')]\<rparr>
    \<and> ValidateToken exLibrary \<lparr>ClaimsRaw = [(''sub'', VString ''Alice'')]\<rparr>
         (TimeSkewTolerance exConfig) (extraValidRules exConfig) = None
    \<and> snd (getUserID exFormats (ClaimsRaw \<lparr>ClaimsRaw = [(''sub'', VString ''Alice'')]\<rparr>)
         (UserClaims exConfig)) \<noteq> []
    \<and> AllowUsers exConfig \<noteq> []
    \<and> snd (getUserID exFormats (ClaimsRaw \<lparr>ClaimsRaw = [(''sub'', VString ''Alice'')]\<rparr>)
         (UserClaims exConfig)) \<notin> set (AllowUsers exConfig)"
    using v u a by (simp add: ex_parse)
  note inst = allow_users_enforced [of exLibrary exConfig "''tokA''"
      "\<lparr>ClaimsRaw = [(''sub'', VString ''Alice'')]\<rparr>" exFormats exRequestAlice]
  from inst [THEN conjunct1, THEN mp, OF h]
  have t: "tryToken exFormats exLibrary exConfig ''tokA''
        = (Continue,
           [CallParseToken ''00'' ''tokA'',
            CallValidate \<lparr>ClaimsRaw = [(''sub'', VString ''Alice'')]\<rparr> 30000000000 [],
            LogWarn ''tokA'' ''user is not allowed'' [(''user_id'', [''Alice''])]])"
    and l: "\<forall>c rest checked.
              normToken c = ''tokA'' \<and> ''tokA'' \<notin> checked
              \<longrightarrow> fst (authLoop exFormats exLibrary exConfig checked (c # rest))
                    = fst (authLoop exFormats exLibrary exConfig (insert ''tokA'' checked) rest)"
    by (simp_all add: u exConfig_def extraValidRules_def maskToken_def)
  from l [rule_format, of "''tokA''" "{}" "[''Bearer tokB'']"]
  have l': "fst (authLoop exFormats exLibrary exConfig {} [''tokA'', ''Bearer tokB''])
        = fst (authLoop exFormats exLibrary exConfig {''tokA''} [''Bearer tokB''])"
    by (simp add: ex_norm)
  have r: "fst (Authenticate exFormats exLibrary exConfig exRequestAlice)
        = Returns (\<lparr>ID = [], Metadata = None\<rparr>, False, None)"
    using authLoop_reject [of "candidates exConfig exRequestAlice" exFormats exLibrary exConfig "{}"]
    by (simp add: Authenticate_def ex_candidates_Alice ex_norm ex_passes)
  from v u a t l' r ex_parse(1) show ?thesis by simp
qed

section \<open>Normalisation of the candidates of every source\<close>

lemma normToken_Bearer_prefix: "normToken (''Bearer '' @ t) = TrimSpace t"
proof -
  have "HasPrefix (ToLower (''Bearer '' @ t)) ''bearer ''"
    using HasPrefix_append [of "''bearer ''" "ToLower t"] ToLower_Bearer
    by (simp only: ToLower_append)
  then show ?thesis by (simp add: normToken_def)
qed

lemma in_candidates:
  "n \<in> set (FromQuery p) \<Longrightarrow> Query_Get r n = v \<Longrightarrow> v \<noteq> [] \<Longrightarrow> v \<in> set (candidates p r)"
  "n \<in> set (FromHeader p) \<Longrightarrow> Header_Get r n = v \<Longrightarrow> v \<noteq> [] \<Longrightarrow> v \<in> set (candidates p r)"
  "n \<in> set (FromCookies p) \<Longrightarrow> Cookie r n = Some v \<Longrightarrow> v \<noteq> [] \<Longrightarrow> v \<in> set (candidates p r)"
  "Header_Get r ''Authorization'' = v \<Longrightarrow> v \<noteq> [] \<Longrightarrow> v \<in> set (candidates p r)"
  unfolding candidates_eq by (auto simp: cookieValue_def image_iff intro: bexI [of _ n])

text \<open>
  C10. Every string handed to the parser is the normalised form of a candidate, and
  every candidate that the loop reaches, whatever its source, is handed to the parser
  in its normalised form. A value of a configured query parameter, cookie or header that
  starts with \<open>Bearer \<close> is a candidate, and its normalised form is the trimmed rest.
\<close>

theorem normToken_every_source:
  "set (parsedTokens (snd (Authenticate fm xp p r))) \<subseteq> normToken ` set (candidates p r)
   \<and> (\<forall>pre c post.
         candidates p r = pre @ c # post \<and> (\<forall>x\<in>set pre. \<not> passes fm xp p (normToken x))
         \<longrightarrow> normToken c \<in> set (parsedTokens (snd (Authenticate fm xp p r))))
   \<and> (\<forall>n t. n \<in> set (FromQuery p) \<and> Query_Get r n = ''Bearer '' @ t
         \<longrightarrow> ''Bearer '' @ t \<in> set (candidates p r)
             \<and> normToken (''Bearer '' @ t) = TrimSpace t)
   \<and> (\<forall>n t. n \<in> set (FromCookies p) \<and> Cookie r n = Some (''Bearer '' @ t)
         \<longrightarrow> ''Bearer '' @ t \<in> set (candidates p r)
             \<and> normToken (''Bearer '' @ t) = TrimSpace t)
   \<and> (\<forall>n t. n \<in> set (FromHeader p) \<and> Header_Get r n = ''Bearer '' @ t
         \<longrightarrow> ''Bearer '' @ t \<in> set (candidates p r)
             \<and> normToken (''Bearer '' @ t) = TrimSpace t)"
proof -
  have c1: "set (parsedTokens (snd (Authenticate fm xp p r))) \<subseteq> normToken ` set (candidates p r)"
    using authLoop_parsed [of fm xp p "{}" "candidates p r"] by (simp add: Authenticate_def)
  have c2: "\<forall>pre c post.
         candidates p r = pre @ c # post \<and> (\<forall>x\<in>set pre. \<not> passes fm xp p (normToken x))
         \<longrightarrow> normToken c \<in> set (parsedTokens (snd (Authenticate fm xp p r)))"
    using authLoop_reached [of _ fm xp p _ "{}"] by (simp add: Authenticate_def)
  have c3: "\<forall>n t. n \<in> set (FromQuery p) \<and> Query_Get r n = ''Bearer '' @ t
         \<longrightarrow> ''Bearer '' @ t \<in> set (candidates p r)
             \<and> normToken (''Bearer '' @ t) = TrimSpace t"
  proof (intro allI impI)
    fix n t
    assume h: "n \<in> set (FromQuery p) \<and> Query_Get r n = ''Bearer '' @ t"
    then have "''Bearer '' @ t \<in> set (candidates p r)"
      using in_candidates(1) [of n p r "''Bearer '' @ t"] by simp
    then show "''Bearer '' @ t \<in> set (candidates p r)
             \<and> normToken (''Bearer '' @ t) = TrimSpace t"
      by (simp only: normToken_Bearer_prefix simp_thms)
  qed
  have c4: "\<forall>n t. n \<in> set (FromCookies p) \<and> Cookie r n = Some (''Bearer '' @ t)
         \<longrightarrow> ''Bearer '' @ t \<in> set (candidates p r)
             \<and> normToken (''Bearer '' @ t) = TrimSpace t"
  proof (intro allI impI)
    fix n t
    assume h: "n \<in> set (FromCookies p) \<and> Cookie r n = Some (''Bearer '' @ t)"
    then have "''Bearer '' @ t \<in> set (candidates p r)"
      using in_candidates(3) [of n p r "''Bearer '' @ t"] by simp
    then show "''Bearer '' @ t \<in> set (candidates p r)
             \<and> normToken (''Bearer '' @ t) = TrimSpace t"
      by (simp only: normToken_Bearer_prefix simp_thms)
  qed
  have c5: "\<forall>n t. n \<in> set (FromHeader p) \<and> Header_Get r n = ''Bearer '' @ t
         \<longrightarrow> ''Bearer '' @ t \<in> set (candidates p r)
             \<and> normToken (''Bearer '' @ t) = TrimSpace t"
  proof (intro allI impI)
    fix n t
    assume h: "n \<in> set (FromHeader p) \<and> Header_Get r n = ''Bearer '' @ t"
    then have "''Bearer '' @ t \<in> set (candidates p r)"
      using in_candidates(2) [of n p r "''Bearer '' @ t"] by simp
    then show "''Bearer '' @ t \<in> set (candidates p r)
             \<and> normToken (''Bearer '' @ t) = TrimSpace t"
      by (simp only: normToken_Bearer_prefix simp_thms)
  qed
  show ?thesis
    by (rule conjI [OF c1 conjI [OF c2 conjI [OF c3 conjI [OF c4 c5]]]])
qed

theorem normToken_every_source_witness:
  "''token'' \<in> set (FromQuery exConfig) \<and> Query_Get exRequest ''token'' = ''Bearer '' @ ''tokA ''
   \<and> ''Bearer '' @ ''tokA '' \<in> set (candidates exConfig exRequest)
   \<and> normToken (''Bearer '' @ ''tokA '') = ''tokA''
   \<and> ''auth'' \<in> set (FromCookies exConfig) \<and> Cookie exRequest ''auth'' = Some (''Bearer '' @ ''junk'')
   \<and> ''Bearer '' @ ''junk'' \<in> set (candidates exConfig exRequest)
   \<and> normToken (''Bearer '' @ ''junk'') = ''junk''
   \<and> candidates exConfig exRequest = [''Bearer tokA '', ''tokA''] @ ''Bearer junk'' # [''Bearer tokB'']
   \<and> \<not> passes exFormats exLibrary exConfig (normToken ''Bearer tokA '')
   \<and> \<not> passes exFormats exLibrary exConfig (normToken ''tokA'')
   \<and> ''junk'' \<in> set (parsedTokens (snd (Authenticate exFormats exLibrary exConfig exRequest)))"
proof -
  note inst = normToken_every_source [of exFormats exLibrary exConfig exRequest]
  have q: "''token'' \<in> set (FromQuery exConfig) \<and> Query_Get exRequest ''token'' = ''Bearer '' @ ''tokA ''"
    by (simp add: exConfig_def exRequest_def)
  have k: "''auth'' \<in> set (FromCookies exConfig) \<and> Cookie exRequest ''auth'' = Some (''Bearer '' @ ''junk'')"
    by (simp add: exConfig_def exRequest_def)
  have t1: "TrimSpace ''tokA '' = ''tokA''" by code_simp
  have t2: "TrimSpace ''junk'' = ''junk''" by code_simp
  from inst [THEN conjunct2, THEN conjunct2, THEN conjunct1, rule_format, OF q]
  have r1: "''Bearer '' @ ''tokA '' \<in> set (candidates exConfig exRequest)
      \<and> normToken (''Bearer '' @ ''tokA '') = ''tokA''"
    by (simp only: t1)
  from inst [THEN conjunct2, THEN conjunct2, THEN conjunct2, THEN conjunct1, rule_format, OF k]
  have r2: "''Bearer '' @ ''junk'' \<in> set (candidates exConfig exRequest)
      \<and> normToken (''Bearer '' @ ''junk'') = ''junk''"
    by (simp only: t2)
  have c: "candidates exConfig exRequest
             = [''Bearer tokA '', ''tokA''] @ ''Bearer junk'' # [''Bearer tokB'']"
    using ex_candidates by simp
  have h: "candidates exConfig exRequest
             = [''Bearer tokA '', ''tokA''] @ ''Bearer junk'' # [''Bearer tokB'']
      \<and> (\<forall>x\<in>set [''Bearer tokA '', ''tokA''].
            \<not> passes exFormats exLibrary exConfig (normToken x))"
    using c ex_passes by (simp add: ex_norm)
  from inst [THEN conjunct2, THEN conjunct1, THEN spec, THEN spec, THEN spec, THEN mp, OF h]
  have r3: "''junk'' \<in> set (parsedTokens (snd (Authenticate exFormats exLibrary exConfig exRequest)))"
    by (simp add: ex_norm)
  from q k r1 r2 c r3 ex_passes show ?thesis by (simp add: ex_norm)
qed

section \<open>Nested meta claims\<close>

text \<open>
  C1, on the documented example. With the claims \<open>{"user_info": {"role": "admin"}}\<close> and
  the path \<open>user_info.role\<close>, the lookup as the specification words it finds \<open>admin\<close>.
  The loop of \<open>queryNested\<close> also walks the last segment, finds a string where it expects
  a mapping, and returns not found: the metadata is \<open>{"role": ""}\<close>, as it is for a path
  that is missing.
\<close>

theorem queryNested_walks_last_segment:
  "queryNested_spec [(''user_info'', VMap [(''role'', VString ''admin'')])] [''user_info'', ''role'']
     = Returns (VString ''admin'', True)
   \<and> queryNested [(''user_info'', VMap [(''role'', VString ''admin'')])] [''user_info'', ''role'']
     = Returns (VNil, False)
   \<and> Split ''user_info.role'' ''.'' = [''user_info'', ''role'']
   \<and> getUserMetadata fm \<lparr>ClaimsRaw = [(''user_info'', VMap [(''role'', VString ''admin'')])]\<rparr>
        [(''user_info.role'', ''role'')]
     = Returns (Some [''role'' \<mapsto> ''''])
   \<and> getUserMetadata fm \<lparr>ClaimsRaw = [(''sub'', VString ''eva'')]\<rparr> [(''user_info.role'', ''role'')]
     = Returns (Some [''role'' \<mapsto> ''''])"
proof -
  have s: "Split ''user_info.role'' ''.'' = [''user_info'', ''role'']" by code_simp
  have c: "Contains ''user_info.role'' ''.''" by code_simp
  have a: "queryNested_spec [(''user_info'', VMap [(''role'', VString ''admin'')])]
             [''user_info'', ''role''] = Returns (VString ''admin'', True)"
    by (simp add: queryNested_spec_def)
  have b: "queryNested [(''user_info'', VMap [(''role'', VString ''admin'')])]
             [''user_info'', ''role''] = Returns (VNil, False)"
    by (simp add: queryNested_def)
  have m: "getUserMetadata fm \<lparr>ClaimsRaw = [(''user_info'', VMap [(''role'', VString ''admin'')])]\<rparr>
        [(''user_info.role'', ''role'')] = Returns (Some [''role'' \<mapsto> ''''])"
    by (simp add: getUserMetadata_def lookupClaim_def s c b)
  have n: "getUserMetadata fm \<lparr>ClaimsRaw = [(''sub'', VString ''eva'')]\<rparr>
        [(''user_info.role'', ''role'')] = Returns (Some [''role'' \<mapsto> ''''])"
    by (simp add: getUserMetadata_def lookupClaim_def s c queryNested_def)
  from s a b m n show ?thesis by simp
qed

section \<open>Identity of the user\<close>

text \<open>
  C2, on examples. With the claims \<open>{"username": "eva"}\<close> and the names \<open>uid\<close>, \<open>username\<close>
  the identity is \<open>eva\<close>, and a boolean \<open>uid\<close> is passed over. With the claims
  \<open>{"uid": "", "username": "eva"}\<close> the function returns \<open>uid\<close> with the empty string:
  it stops at the first claim that is a string or a number, empty or not. A token with
  these claims is then passed over by the loop with the warning \<open>user claim is empty\<close>.
\<close>

theorem getUserID_first_string_claim:
  "getUserID fm [(''uid'', VString ''''), (''username'', VString ''eva'')] [''uid'', ''username'']
     = (''uid'', '''')
   \<and> getUserID fm [(''username'', VString ''eva'')] [''uid'', ''username''] = (''username'', ''eva'')
   \<and> getUserID fm [(''uid'', VBool True), (''username'', VString ''eva'')] [''uid'', ''username'']
     = (''username'', ''eva'')
   \<and> tryToken fm
        (exLibrary\<lparr>ParseToken := \<lambda>k s.
           Inr \<lparr>ClaimsRaw = [(''uid'', VString ''''), (''username'', VString ''eva'')]\<rparr>\<rparr>)
        (exConfig\<lparr>UserClaims := [''uid'', ''username''], AllowUsers := []\<rparr>) ''tok''
     = (Continue,
        [CallParseToken ''00'' ''tok'',
         CallValidate \<lparr>ClaimsRaw = [(''uid'', VString ''''), (''username'', VString ''eva'')]\<rparr>
           30000000000 [],
         LogWarn ''tok'' ''user claim is empty'' [(''user_claims'', [''uid'', ''username''])]])"
  by (simp add: tryToken_def exLibrary_def exConfig_def extraValidRules_def maskToken_def)

end
